theory Spec2Isabelle
  imports Main "HOL-Library.Sublist"
begin

section \<open>Data model of the Suggest widget\<close>

text \<open>
  The development embeds the class \<open>Suggest\<close> and the \<open>search.ajax\<close> factory. A JavaScript
  string is a \<open>string\<close>, one character per code unit. The items returned by a search function
  are opaque values of type \<open>'a\<close>; \<open>None\<close> of type \<open>'a option\<close> is JavaScript's
  \<open>undefined\<close>/\<open>null\<close>.

  Input elements and \<open>Suggest\<close> objects live in a store and are named by numbers, so that
  two objects bound to one input element share its \<open>value\<close>.
\<close>

type_synonym el = nat
type_synonym oid = nat

datatype error = TypeError

text \<open>
  What has been put into a child element of \<open>#listEl\<close>: markup assigned through \<open>innerHTML\<close>,
  kept as the string that was assigned (the elements it makes are not modelled); a text node
  appended to the element, with its text; or nothing.
\<close>

datatype content = InnerHTML string | TextNode string | Empty

text \<open>
  A child element of \<open>#listEl\<close>: an item element built by \<open>updateList\<close>, or the error element
  built by \<open>showError\<close>, which carries no \<open>suggestItem\<close>. \<open>hover\<close> and \<open>active\<close> are the two
  CSS classes of that name.
\<close>

record 'a child =
  suggestItem :: "'a option"
  content :: content
  title :: string
  hover :: bool
  active :: bool

text \<open>
  \<open>#settings\<close> after \<open>Object.assign\<close>. \<open>searchFn\<close> and \<open>enterFn\<close> record whether the setting
  is a function; calls of the callbacks \<open>searchFn\<close>, \<open>selectFn\<close>, \<open>clearFn\<close> and \<open>enterFn\<close>
  are effects and are appended to the log \<open>calls\<close> of the world. \<open>labelFn\<close> and \<open>markFn\<close> are
  pure functions; \<open>labelFn\<close> includes the conversion of its result to a string that every
  use of a label performs. The templates are the default ones.
\<close>

record 'a settings =
  minLength :: int
  debounce :: nat
  searchFn :: bool
  labelFn :: "'a option \<Rightarrow> string"
  markFn :: "string \<Rightarrow> string \<Rightarrow> 'a \<Rightarrow> string"
  enterFn :: bool

text \<open>The \<open>options\<close> argument of the constructor: every setting may be absent.\<close>

record 'a options =
  opt_minLength :: "int option"
  opt_debounce :: "nat option"
  opt_searchFn :: bool
  opt_labelFn :: "('a option \<Rightarrow> string) option"
  opt_markFn :: "(string \<Rightarrow> string \<Rightarrow> 'a \<Rightarrow> string) option"
  opt_enterFn :: bool

text \<open>
  Modelled from the spec: \<open>Spinner.js\<close> is imported by the source but is not among the source
  files. The spec calls it the searching indicator: \<open>show\<close> makes it visible, \<open>hide\<close> hides it,
  \<open>destroy\<close> tears it down, and the widget builds it hidden.
\<close>

record spinner =
  spinning :: bool
  destroyed :: bool

definition spinner_show :: "spinner \<Rightarrow> spinner" where
  "spinner_show sp = sp\<lparr>spinning := True\<rparr>"

definition spinner_hide :: "spinner \<Rightarrow> spinner" where
  "spinner_hide sp = sp\<lparr>spinning := False\<rparr>"

definition spinner_destroy :: "spinner \<Rightarrow> spinner" where
  "spinner_destroy sp = sp\<lparr>destroyed := True\<rparr>"

text \<open>
  The private fields of a fully constructed object. \<open>children\<close> and \<open>shown\<close> are the state
  of \<open>#listEl\<close>: its child elements and whether its class list contains \<open>show\<close>.
\<close>

record 'a built =
  settings :: "'a settings"
  inputEl :: el
  children :: "'a child list"
  shown :: bool
  spinner :: spinner
  timeoutId :: "nat option"

text \<open>
  The constructor has three exits, and an object has one of three shapes accordingly:
  \<open>NoInput\<close> when \<open>#inputEl\<close> is \<open>null\<close> (line 167; every other field is undefined),
  \<open>NoSearchFn\<close> when the settings hold no search function (line 178; \<open>#listEl\<close> and
  \<open>#spinner\<close> are undefined), and \<open>Built\<close>.
\<close>

datatype 'a suggest =
    NoInput
  | NoSearchFn el "'a settings"
  | is_Built: Built (the_built: "'a built")

datatype 'a call =
    SearchFn oid string
  | SelectFn oid "'a option" nat
  | ClearFn oid
  | EnterFn oid "'a option" "nat option"

text \<open>
  Writes to the document tree are recorded in order, not interpreted: the input element is
  taken to be attached to a document, so that none of them fails.
\<close>

datatype dom_op =
    WrapInput el oid
  | BuildList el oid
  | BuildSpinner el oid
  | SetAttributes el
  | UnwrapInput el
  | RevertAttributes el

text \<open>
  The world: the environment (\<open>to_string\<close>, the string conversion of an item;
  \<open>querySelector\<close> of the document; the \<open>value\<close> of every input element; the timers of
  \<open>setTimeout\<close> as triples of identifier, due time and the object whose callback is armed;
  the clock), the object store, the static fields \<open>#initializedEls\<close> (a \<open>Map\<close>, which keeps
  insertion order) and whether \<open>#documentOnClick\<close> is installed on the document, the
  searches in flight (object and captured query, in dispatch order), and the logs.
\<close>

record 'a world =
  to_string :: "'a option \<Rightarrow> string"
  querySelector :: "string \<Rightarrow> el option"
  input_value :: "el \<Rightarrow> string"
  insts :: "oid \<Rightarrow> 'a suggest"
  nextOid :: oid
  initializedEls :: "(el \<times> oid) list"
  documentListener :: bool
  timers :: "(nat \<times> nat \<times> oid) list"
  nextTimer :: nat
  now :: nat
  pending :: "(oid \<times> string) list"
  calls :: "'a call list"
  console :: "string list"
  dom_log :: "dom_op list"

definition put :: "oid \<Rightarrow> 'a built \<Rightarrow> 'a world \<Rightarrow> 'a world" where
  "put this s w = w\<lparr>insts := (insts w)(this := Built s)\<rparr>"

section \<open>show, hide, clear\<close>

definition show_b :: "'a built \<Rightarrow> 'a built" where
  "show_b s = (if length (children s) = 0 then s else s\<lparr>shown := True\<rparr>)"

definition hide_b :: "'a built \<Rightarrow> 'a built" where
  "hide_b s = s\<lparr>shown := False\<rparr>"

definition show_list :: "oid \<Rightarrow> 'a world \<Rightarrow> error + 'a world" where
  "show_list this w =
     (case insts w this of
        Built s \<Rightarrow> Inr (put this (show_b s) w)
      | _ \<Rightarrow> Inl TypeError)"

definition hide :: "oid \<Rightarrow> 'a world \<Rightarrow> error + 'a world" where
  "hide this w =
     (case insts w this of
        Built s \<Rightarrow> Inr (put this (hide_b s) w)
      | _ \<Rightarrow> Inl TypeError)"

definition clear :: "oid \<Rightarrow> 'a world \<Rightarrow> error + 'a world" where
  "clear this w =
     (case insts w this of
        Built s \<Rightarrow>
          Inr ((put this ((hide_b s)\<lparr>children := []\<rparr>) w)
                 \<lparr>input_value := (input_value w)(inputEl s := []),
                  calls := calls w @ [ClearFn this]\<rparr>)
      | _ \<Rightarrow> Inl TypeError)"

section \<open>refresh\<close>

text \<open>
  \<open>updateList\<close>: one child per item, in the order of the list; the query is read from the
  input element.
\<close>

definition newItemEl :: "'a settings \<Rightarrow> string \<Rightarrow> 'a \<Rightarrow> 'a child" where
  "newItemEl st query item =
     \<lparr>suggestItem = Some item,
      content = InnerHTML (markFn st query (labelFn st (Some item)) item),
      title = labelFn st (Some item),
      hover = False, active = False\<rparr>"

definition updateList :: "string \<Rightarrow> 'a list \<Rightarrow> 'a built \<Rightarrow> 'a built" where
  "updateList query list s =
     (let fragment = map (newItemEl (settings s) query) list
      in if length fragment > 0 then show_b (s\<lparr>children := fragment\<rparr>)
         else (hide_b s)\<lparr>children := []\<rparr>)"

text \<open>The element that the error template makes: a \<open>div\<close> of class \<open>suggest-error\<close>, empty.\<close>

definition errorEl :: "'a child" where
  "errorEl = \<lparr>suggestItem = None, content = Empty, title = [], hover = False, active = False\<rparr>"

text \<open>
  What \<open>searchFn\<close> rejected with, as \<open>showError\<close> reads it at \<open>error.message\<close>: \<open>Nullish\<close> is
  \<open>undefined\<close> or \<open>null\<close>, on which the read throws a \<open>TypeError\<close>; \<open>Message m\<close> is any other
  value, \<open>m\<close> being the text that \<open>createTextNode\<close> makes of its \<open>message\<close>: the message of an
  \<open>Error\<close>, the text \<open>undefined\<close> for a value that has no such property.
\<close>

datatype rejection = Nullish | Message string

text \<open>
  \<open>showError\<close>: the list is hidden and emptied and the error element is inserted; then the
  message is read, appended to the error element as a text node, the list is shown and the
  error is written to the console. When the read of the message throws, the function ends
  there, with the list hidden around an empty error element. The result is the exception,
  if any, the object as the function leaves it, and the lines written to the console.
\<close>

definition showError :: "rejection \<Rightarrow> 'a built \<Rightarrow> error option \<times> 'a built \<times> string list" where
  "showError err s =
     (let s1 = (hide_b s)\<lparr>children := [errorEl]\<rparr>
      in case err of
           Nullish \<Rightarrow> (Some TypeError, s1, [])
         | Message m \<Rightarrow>
             (None, show_b (s1\<lparr>children := [errorEl\<lparr>content := TextNode m\<rparr>]\<rparr>), [m]))"

text \<open>
  \<open>refresh\<close> up to its \<open>await\<close>. On an object that is not fully constructed the reads of
  undefined fields throw, except that the length guard returns first. A dispatch shows
  the spinner, calls \<open>searchFn\<close> with the captured query and leaves the search in flight.
\<close>

definition refresh :: "oid \<Rightarrow> 'a world \<Rightarrow> error + 'a world" where
  "refresh this w =
     (case insts w this of
        NoInput \<Rightarrow> Inl TypeError
      | NoSearchFn e st \<Rightarrow>
          (if input_value w e = [] then Inl TypeError
           else if int (length (input_value w e)) < minLength st then Inr w
           else Inl TypeError)
      | Built s \<Rightarrow>
          (if input_value w (inputEl s) = [] then
             (case clear this w of
                Inl x \<Rightarrow> Inl x
              | Inr w1 \<Rightarrow>
                  (case insts w1 this of
                     Built s1 \<Rightarrow> Inr (put this (s1\<lparr>spinner := spinner_hide (spinner s1)\<rparr>) w1)
                   | _ \<Rightarrow> Inl TypeError))
           else if int (length (input_value w (inputEl s))) < minLength (settings s) then Inr w
           else
             (let query = input_value w (inputEl s)
              in Inr ((put this (s\<lparr>spinner := spinner_show (spinner s)\<rparr>) w)
                        \<lparr>calls := calls w @ [SearchFn this query],
                         pending := pending w @ [(this, query)]\<rparr>))))"

text \<open>How a call of \<open>searchFn\<close> settles: its promise resolves with a list, or is rejected.\<close>

datatype 'a outcome = Resolved "'a list" | Rejected rejection

text \<open>
  \<open>refresh\<close> from its \<open>await\<close> on, for the query captured at dispatch. Only a fully
  constructed object has a search in flight. In the \<open>catch\<close> block, \<open>this.#spinner.hide()\<close>
  follows \<open>showError\<close> and is not reached when \<open>showError\<close> throws; the promise of \<open>refresh\<close>
  is then rejected, which changes nothing more.
\<close>

definition refresh_resume :: "oid \<Rightarrow> string \<Rightarrow> 'a outcome \<Rightarrow> 'a world \<Rightarrow> 'a world" where
  "refresh_resume this query out w =
     (case insts w this of
        Built s \<Rightarrow>
          (case out of
             Resolved list \<Rightarrow>
               (if input_value w (inputEl s) \<noteq> query then w
                else (let s1 = updateList (input_value w (inputEl s)) list s
                      in put this (s1\<lparr>spinner := spinner_hide (spinner s1)\<rparr>) w))
           | Rejected err \<Rightarrow>
               (case showError err s of
                  (None, s1, lines) \<Rightarrow>
                    (put this (s1\<lparr>spinner := spinner_hide (spinner s1)\<rparr>) w)
                      \<lparr>console := console w @ lines\<rparr>
                | (Some x, s1, lines) \<Rightarrow> (put this s1 w)\<lparr>console := console w @ lines\<rparr>))
      | _ \<Rightarrow> w)"

section \<open>Debounce, timers and the clock\<close>

definition clearTimeout :: "nat \<Rightarrow> 'a world \<Rightarrow> 'a world" where
  "clearTimeout t w = w\<lparr>timers := filter (\<lambda>x. fst x \<noteq> t) (timers w)\<rparr>"

definition setTimeout :: "oid \<Rightarrow> nat \<Rightarrow> 'a world \<Rightarrow> nat \<times> 'a world" where
  "setTimeout this delay w =
     (nextTimer w,
      w\<lparr>timers := timers w @ [(nextTimer w, now w + delay, this)],
        nextTimer := Suc (nextTimer w)\<rparr>)"

text \<open>
  \<open>#debounceRefresh\<close>. The test \<open>if (this.#timeoutId)\<close> is JavaScript truthiness: it fails
  on \<open>undefined\<close> and on the number 0.
\<close>

definition debounceRefresh :: "oid \<Rightarrow> 'a world \<Rightarrow> error + 'a world" where
  "debounceRefresh this w =
     (case insts w this of
        Built s \<Rightarrow>
          (let w1 = (case timeoutId s of
                       Some t \<Rightarrow> if t \<noteq> 0 then clearTimeout t w else w
                     | None \<Rightarrow> w);
               (t, w2) = setTimeout this (debounce (settings s)) w1
           in Inr (put this (s\<lparr>timeoutId := Some t\<rparr>) w2))
      | _ \<Rightarrow> Inl TypeError)"

text \<open>
  The callback armed by \<open>#debounceRefresh\<close>: it resets \<open>#timeoutId\<close> and runs \<open>refresh\<close>; an
  exception of \<open>refresh\<close> rejects the callback's promise and changes nothing more.
\<close>

definition timerCallback :: "oid \<Rightarrow> 'a world \<Rightarrow> 'a world" where
  "timerCallback this w =
     (case insts w this of
        Built s \<Rightarrow>
          (let w1 = put this (s\<lparr>timeoutId := None\<rparr>) w
           in case refresh this w1 of Inr w2 \<Rightarrow> w2 | Inl _ \<Rightarrow> w1)
      | _ \<Rightarrow> w)"

text \<open>
  The clock advances one millisecond at a time; the timers then due fire in the order of
  their due times, those of one due time in the order they were armed. A timer cleared by
  an earlier callback does not fire.
\<close>

definition fire :: "nat \<times> nat \<times> oid \<Rightarrow> 'a world \<Rightarrow> 'a world" where
  "fire t w =
     (if t \<in> set (timers w)
      then timerCallback (snd (snd t)) (w\<lparr>timers := filter (\<lambda>x. fst x \<noteq> fst t) (timers w)\<rparr>)
      else w)"

definition run_due :: "'a world \<Rightarrow> 'a world" where
  "run_due w =
     fold fire (sort_key (\<lambda>x. fst (snd x)) (filter (\<lambda>x. fst (snd x) \<le> now w) (timers w))) w"

fun elapse :: "nat \<Rightarrow> 'a world \<Rightarrow> 'a world" where
  "elapse 0 w = w"
| "elapse (Suc d) w = elapse d (run_due (w\<lparr>now := Suc (now w)\<rparr>))"

section \<open>Selection and the keyboard\<close>

text \<open>
  An element handed to \<open>#select\<close>: \<open>None\<close> is \<open>null\<close>, \<open>ListEl\<close> is \<open>#listEl\<close> itself and
  \<open>Child i\<close> its \<open>i\<close>-th child. An index past the end names no element, and \<open>select\<close> then
  leaves the world as it is.
\<close>

datatype target = ListEl | Child nat

definition select :: "oid \<Rightarrow> target option \<Rightarrow> 'a world \<Rightarrow> error + 'a world" where
  "select this itemEl w =
     (case itemEl of
        None \<Rightarrow> Inr w
      | Some t \<Rightarrow>
          (case insts w this of
             Built s \<Rightarrow>
               (case t of
                  ListEl \<Rightarrow> Inr w
                | Child i \<Rightarrow>
                    (if i < length (children s) then
                       (let item = suggestItem (children s ! i);
                            cs = map (\<lambda>c. c\<lparr>active := False, hover := False\<rparr>) (children s)
                        in Inr ((put this (hide_b (s\<lparr>children := cs[i := (cs ! i)\<lparr>active := True\<rparr>]\<rparr>)) w)
                                  \<lparr>input_value := (input_value w)(inputEl s := labelFn (settings s) item),
                                   calls := calls w @ [SelectFn this item i]\<rparr>))
                     else Inr w))
           | _ \<Rightarrow> Inl TypeError))"

datatype key = ArrowDown | ArrowUp | Enter | Tab | OtherKey

record key_event =
  key :: key
  defaultPrevented :: bool
  propagationStopped :: bool

datatype sibling = nextElementSibling | previousElementSibling

datatype edge = firstElementChild | lastElementChild

text \<open>\<open>querySelector\<close> on the list for a class: the first child that carries it.\<close>

fun first_index :: "('b \<Rightarrow> bool) \<Rightarrow> 'b list \<Rightarrow> nat option" where
  "first_index P [] = None"
| "first_index P (x # xs) = (if P x then Some 0 else map_option Suc (first_index P xs))"

fun sibling_of :: "sibling \<Rightarrow> nat \<Rightarrow> nat \<Rightarrow> nat option" where
  "sibling_of nextElementSibling n i = (if Suc i < n then Some (Suc i) else None)"
| "sibling_of previousElementSibling n i = (if 0 < i then Some (i - 1) else None)"

fun edge_of :: "edge \<Rightarrow> nat \<Rightarrow> nat option" where
  "edge_of firstElementChild n = (if n = 0 then None else Some 0)"
| "edge_of lastElementChild n = (if n = 0 then None else Some (n - 1))"

text \<open>\<open>focusedEl || activeEl\<close>.\<close>

definition currentEl :: "'a child list \<Rightarrow> nat option" where
  "currentEl cs =
     (case first_index hover cs of Some i \<Rightarrow> Some i | None \<Rightarrow> first_index active cs)"

text \<open>
  \<open>#moveHover\<close>; the scrolling at its end changes no state. \<open>nextEl.classList\<close> throws when
  the list has no child.
\<close>

definition moveHover ::
  "oid \<Rightarrow> key_event \<Rightarrow> sibling \<Rightarrow> edge \<Rightarrow> 'a world \<Rightarrow> error + (key_event \<times> 'a world)" where
  "moveHover this e currentProp listProp w =
     (case insts w this of
        Built s \<Rightarrow>
          (let e1 = e\<lparr>propagationStopped := True, defaultPrevented := True\<rparr>;
               cs = children s;
               nextEl = (case currentEl cs of
                           Some i \<Rightarrow>
                             (case sibling_of currentProp (length cs) i of
                                Some j \<Rightarrow> Some j
                              | None \<Rightarrow> edge_of listProp (length cs))
                         | None \<Rightarrow> edge_of listProp (length cs));
               cs1 = (case currentEl cs of
                        Some i \<Rightarrow> cs[i := (cs ! i)\<lparr>hover := False\<rparr>]
                      | None \<Rightarrow> cs)
           in case nextEl of
                None \<Rightarrow> Inl TypeError
              | Some j \<Rightarrow> Inr (e1, put this (s\<lparr>children := cs1[j := (cs1 ! j)\<lparr>hover := True\<rparr>]\<rparr>) w))
      | _ \<Rightarrow> Inl TypeError)"

definition findSelectedEl ::
  "oid \<Rightarrow> key_event \<Rightarrow> 'a world \<Rightarrow> error + (key_event \<times> 'a world)" where
  "findSelectedEl this e w =
     (case insts w this of
        Built s \<Rightarrow>
          (let e1 = e\<lparr>defaultPrevented := True, propagationStopped := True\<rparr>;
               cs = children s
           in if key e = Enter \<and> enterFn (settings s) then
                Inr (e1, w\<lparr>calls := calls w @
                       [EnterFn this
                          (case currentEl cs of Some i \<Rightarrow> suggestItem (cs ! i) | None \<Rightarrow> None)
                          (currentEl cs)]\<rparr>)
              else
                (case select this
                        (case currentEl cs of
                           Some i \<Rightarrow> Some (Child i)
                         | None \<Rightarrow> map_option Child (edge_of firstElementChild (length cs))) w of
                   Inl x \<Rightarrow> Inl x
                 | Inr w1 \<Rightarrow> Inr (e1, w1)))
      | _ \<Rightarrow> Inl TypeError)"

definition handleKeyEvent ::
  "oid \<Rightarrow> key_event \<Rightarrow> 'a world \<Rightarrow> error + (key_event \<times> 'a world)" where
  "handleKeyEvent this e w =
     (case insts w this of
        Built s \<Rightarrow>
          (if \<not> shown s then
             (if key e = ArrowDown \<or> key e = ArrowUp then
                (case show_list this w of Inl x \<Rightarrow> Inl x | Inr w1 \<Rightarrow> Inr (e, w1))
              else Inr (e, w))
           else if key e = ArrowDown then moveHover this e nextElementSibling firstElementChild w
           else if key e = ArrowUp then moveHover this e previousElementSibling lastElementChild w
           else if key e = Enter \<or> key e = Tab then findSelectedEl this e w
           else Inr (e, w))
      | _ \<Rightarrow> Inl TypeError)"

section \<open>Construction, destruction and the registry\<close>

text \<open>The operations of the \<open>Map\<close> \<open>#initializedEls\<close>; \<open>get\<close> is \<open>map_of\<close>, \<open>size\<close> is \<open>length\<close>.\<close>

fun map_set :: "'k \<Rightarrow> 'v \<Rightarrow> ('k \<times> 'v) list \<Rightarrow> ('k \<times> 'v) list" where
  "map_set k v [] = [(k, v)]"
| "map_set k v (x # m) = (if fst x = k then (k, v) # m else x # map_set k v m)"

definition map_delete :: "'k \<Rightarrow> ('k \<times> 'v) list \<Rightarrow> ('k \<times> 'v) list" where
  "map_delete k m = filter (\<lambda>x. fst x \<noteq> k) m"

text \<open>
  \<open>destroy\<close>. \<open>this.#spinner.destroy()\<close> throws on an object that is not fully constructed.
  Nothing in the body reads or clears \<open>#timeoutId\<close>.
\<close>

definition destroy :: "oid \<Rightarrow> 'a world \<Rightarrow> error + 'a world" where
  "destroy this w =
     (case insts w this of
        Built s \<Rightarrow>
          (let w1 = put this (s\<lparr>spinner := spinner_destroy (spinner s)\<rparr>) w;
               w2 = w1\<lparr>dom_log := dom_log w1 @ [UnwrapInput (inputEl s), RevertAttributes (inputEl s)]\<rparr>;
               w3 = w2\<lparr>initializedEls := map_delete (inputEl s) (initializedEls w2)\<rparr>
           in Inr (if length (initializedEls w3) = 0 then w3\<lparr>documentListener := False\<rparr> else w3))
      | _ \<Rightarrow> Inl TypeError)"

text \<open>\<open>Object.assign({}, Suggest.#defaultSettings, options)\<close>.\<close>

definition assign_settings :: "('a option \<Rightarrow> string) \<Rightarrow> 'a options \<Rightarrow> 'a settings" where
  "assign_settings str options =
     \<lparr>minLength = (case opt_minLength options of None \<Rightarrow> 1 | Some n \<Rightarrow> n),
      debounce = (case opt_debounce options of None \<Rightarrow> 250 | Some d \<Rightarrow> d),
      searchFn = opt_searchFn options,
      labelFn = (case opt_labelFn options of None \<Rightarrow> str | Some f \<Rightarrow> f),
      markFn = (case opt_markFn options of None \<Rightarrow> (\<lambda>query label item. label) | Some f \<Rightarrow> f),
      enterFn = opt_enterFn options\<rparr>"

text \<open>The first argument of the constructor: a selector, or an element or \<open>null\<close>.\<close>

datatype el_arg = Selector string | Element "el option"

definition input_null_message :: string where
  "input_null_message = ''Suggest Error: Suggest input element is null.''"

definition no_search_message :: string where
  "no_search_message = ''Suggest Error: You must define a search function.''"

text \<open>
  \<open>new Suggest(el, options)\<close>: a fresh object is allocated and the constructor runs on it.
  The result is the object and the world.
\<close>

definition new_Suggest :: "el_arg \<Rightarrow> 'a options \<Rightarrow> 'a world \<Rightarrow> error + (oid \<times> 'a world)" where
  "new_Suggest el options w =
     (let this = nextOid w;
          w0 = w\<lparr>nextOid := Suc this\<rparr>
      in case (case el of Selector sel \<Rightarrow> querySelector w sel | Element e \<Rightarrow> e) of
           None \<Rightarrow>
             Inr (this, w0\<lparr>insts := (insts w0)(this := NoInput),
                           console := console w0 @ [input_null_message]\<rparr>)
         | Some e \<Rightarrow>
             (case (case map_of (initializedEls w0) e of
                      Some old \<Rightarrow> destroy old w0
                    | None \<Rightarrow> Inr w0) of
                Inl x \<Rightarrow> Inl x
              | Inr w1 \<Rightarrow>
                  (let st = assign_settings (to_string w1) options
                   in if \<not> searchFn st then
                        Inr (this, w1\<lparr>insts := (insts w1)(this := NoSearchFn e st),
                                      console := console w1 @ [no_search_message]\<rparr>)
                      else
                        (let w2 = (put this
                                     \<lparr>settings = st, inputEl = e, children = [], shown = False,
                                      spinner = \<lparr>spinning = False, destroyed = False\<rparr>,
                                      timeoutId = None\<rparr> w1)
                                    \<lparr>dom_log := dom_log w1 @
                                       [WrapInput e this, BuildList e this, BuildSpinner e this,
                                        SetAttributes e]\<rparr>;
                             w3 = (if length (initializedEls w2) = 0
                                   then w2\<lparr>documentListener := True\<rparr> else w2)
                         in Inr (this, w3\<lparr>initializedEls := map_set e this (initializedEls w3)\<rparr>)))))"

section \<open>Listeners\<close>

text \<open>The listeners that \<open>#wrapInputEl\<close> and \<open>#buildListEl\<close> attach.\<close>

definition onInput :: "oid \<Rightarrow> 'a world \<Rightarrow> error + 'a world" where
  "onInput this w = debounceRefresh this w"

definition onFocus :: "oid \<Rightarrow> 'a world \<Rightarrow> error + 'a world" where
  "onFocus this w = show_list this w"

definition onClick :: "oid \<Rightarrow> 'a world \<Rightarrow> error + 'a world" where
  "onClick this w =
     (case insts w this of
        Built s \<Rightarrow> (if input_value w (inputEl s) \<noteq> [] then show_list this w else hide this w)
      | _ \<Rightarrow> Inl TypeError)"

definition onListClick :: "oid \<Rightarrow> target \<Rightarrow> 'a world \<Rightarrow> error + 'a world" where
  "onListClick this t w = select this (Some t) w"

text \<open>
  The \<open>mouseenter\<close> listener that \<open>updateList\<close> attaches to every item element, here for the
  \<open>i\<close>-th child: it takes the highlight from every child and gives it to that child. For an
  element that is no longer a child of the list (an index past the end) the lookup yields
  \<open>undefined\<close> and the listener throws once the highlights are taken; the result is the
  world the listener leaves in either case.
\<close>

definition onMouseenter :: "oid \<Rightarrow> nat \<Rightarrow> 'a world \<Rightarrow> 'a world" where
  "onMouseenter this i w =
     (case insts w this of
        Built s \<Rightarrow>
          (let cs = map (\<lambda>c. c\<lparr>hover := False\<rparr>) (children s)
           in if i < length (children s)
              then put this (s\<lparr>children := cs[i := (cs ! i)\<lparr>hover := True\<rparr>]\<rparr>) w
              else put this (s\<lparr>children := cs\<rparr>) w)
      | _ \<Rightarrow> w)"

text \<open>
  \<open>#documentOnClick\<close>. The target of the click is an input element, lies in the list of an
  object, or is elsewhere.
\<close>

datatype click_target = InInput el | InList oid | Elsewhere

fun documentOnClick_loop :: "click_target \<Rightarrow> oid list \<Rightarrow> 'a world \<Rightarrow> error + 'a world" where
  "documentOnClick_loop t [] w = Inr w"
| "documentOnClick_loop t (suggest # rest) w =
     (case insts w suggest of
        Built s \<Rightarrow>
          (if t \<noteq> InInput (inputEl s) \<and> t \<noteq> InList suggest then
             documentOnClick_loop t rest
               (put suggest (hide_b (s\<lparr>children := map (\<lambda>c. c\<lparr>hover := False\<rparr>) (children s)\<rparr>)) w)
           else documentOnClick_loop t rest w)
      | _ \<Rightarrow> Inl TypeError)"

definition documentOnClick :: "click_target \<Rightarrow> 'a world \<Rightarrow> error + 'a world" where
  "documentOnClick t w = documentOnClick_loop t (map snd (initializedEls w)) w"

section \<open>The event loop\<close>

text \<open>
  What can happen to a page that uses the widget: a script constructs an object or calls a
  public method; the user edits the input wrapped by an object (the value changes and the
  \<open>input\<close> event reaches the wrapper), focuses or clicks the wrapper, presses a key, clicks
  in a list, moves the mouse onto an item element (the error element has no listener for
  that) or clicks anywhere in the document; a script writes the value of an input element;
  time passes; the search in flight at a position of \<open>pending\<close> settles. A method or
  listener that an event calls and that throws does so before it has changed anything (but
  for \<open>onMouseenter\<close>, whose result is what it leaves), so the event then leaves the world as
  it is. The listeners of an object exist once it is fully constructed.
\<close>

datatype 'a event =
    New el_arg "'a options"
  | Destroy oid
  | Show oid
  | Hide oid
  | Clear oid
  | Refresh oid
  | Input oid string
  | Focus oid
  | Click oid
  | KeyDown oid key
  | ListClick oid target
  | MouseEnter oid nat
  | DocumentClick click_target
  | SetValue el string
  | Elapse nat
  | Settle nat "'a outcome"

definition attempt :: "error + 'a world \<Rightarrow> 'a world \<Rightarrow> 'a world" where
  "attempt r w = (case r of Inl _ \<Rightarrow> w | Inr w1 \<Rightarrow> w1)"

definition settle :: "nat \<Rightarrow> 'a outcome \<Rightarrow> 'a world \<Rightarrow> 'a world" where
  "settle k out w =
     (if k < length (pending w) then
        refresh_resume (fst (pending w ! k)) (snd (pending w ! k)) out
          (w\<lparr>pending := take k (pending w) @ drop (Suc k) (pending w)\<rparr>)
      else w)"

fun step :: "'a event \<Rightarrow> 'a world \<Rightarrow> 'a world" where
  "step (New el options) w = (case new_Suggest el options w of Inl _ \<Rightarrow> w | Inr r \<Rightarrow> snd r)"
| "step (Destroy this) w = attempt (destroy this w) w"
| "step (Show this) w = attempt (show_list this w) w"
| "step (Hide this) w = attempt (hide this w) w"
| "step (Clear this) w = attempt (clear this w) w"
| "step (Refresh this) w = attempt (refresh this w) w"
| "step (Input this v) w =
     (case insts w this of
        Built s \<Rightarrow>
          attempt (onInput this (w\<lparr>input_value := (input_value w)(inputEl s := v)\<rparr>))
            (w\<lparr>input_value := (input_value w)(inputEl s := v)\<rparr>)
      | _ \<Rightarrow> w)"
| "step (Focus this) w = attempt (onFocus this w) w"
| "step (Click this) w = attempt (onClick this w) w"
| "step (KeyDown this k) w =
     (case handleKeyEvent this \<lparr>key = k, defaultPrevented = False, propagationStopped = False\<rparr> w of
        Inl _ \<Rightarrow> w
      | Inr r \<Rightarrow> snd r)"
| "step (ListClick this t) w = attempt (onListClick this t w) w"
| "step (MouseEnter this i) w =
     (case insts w this of
        Built s \<Rightarrow>
          (if i < length (children s) \<and> suggestItem (children s ! i) = None then w
           else onMouseenter this i w)
      | _ \<Rightarrow> w)"
| "step (DocumentClick t) w =
     (if documentListener w then attempt (documentOnClick t w) w else w)"
| "step (SetValue e v) w = w\<lparr>input_value := (input_value w)(e := v)\<rparr>"
| "step (Elapse d) w = elapse d w"
| "step (Settle k out) w = settle k out w"

definition run :: "'a event list \<Rightarrow> 'a world \<Rightarrow> 'a world" where
  "run evs w = fold step evs w"

text \<open>
  A burst of typing into the field of an object: each keystroke comes with the time that
  has passed since the event before it and with the value of the field after it.
\<close>

fun keystrokes :: "oid \<Rightarrow> (nat \<times> string) list \<Rightarrow> 'a event list" where
  "keystrokes this [] = []"
| "keystrokes this (k # ks) = Elapse (fst k) # Input this (snd k) # keystrokes this ks"

text \<open>A page on which no \<open>Suggest\<close> has been constructed yet.\<close>

definition init_world ::
  "('a option \<Rightarrow> string) \<Rightarrow> (string \<Rightarrow> el option) \<Rightarrow> (el \<Rightarrow> string) \<Rightarrow> 'a world" where
  "init_world str qs vals =
     \<lparr>to_string = str, querySelector = qs, input_value = vals,
      insts = (\<lambda>_. NoInput), nextOid = 0, initializedEls = [], documentListener = False,
      timers = [], nextTimer = 1, now = 0, pending = [], calls = [], console = [],
      dom_log = []\<rparr>"

section \<open>The search function built by search.ajax\<close>

text \<open>
  The response of \<open>fetch\<close> as the function reads it; \<open>json\<close> is what \<open>result.json()\<close> yields:
  an array, another value, or a rejection with a \<open>SyntaxError\<close> and its message.
\<close>

datatype 'a payload = JsonArray "'a list" | JsonOther | JsonInvalid string

record 'a response =
  redirected :: bool
  url :: string
  ok :: bool
  json :: "'a payload"

definition ajax :: "string \<Rightarrow> 'a response \<Rightarrow> 'a outcome" where
  "ajax loginUrlEndsWith result =
     (if redirected result \<and> suffix loginUrlEndsWith (url result) then
        Rejected (Message ''You have been logged out.'')
      else if redirected result \<or> \<not> ok result then
        Rejected (Message ''There was a problem with the server.'')
      else
        (case json result of
           JsonArray list \<Rightarrow> Resolved list
         | JsonOther \<Rightarrow> Rejected (Message ''There was a problem with the server.'')
         | JsonInvalid message \<Rightarrow> Rejected (Message message)))"

section \<open>The registry and its invariant\<close>




text \<open>
  The invariant of the rendered list of an object: at most one child is highlighted, and an
  open list has a child.
\<close>

definition widget_ok :: "'a suggest \<Rightarrow> bool" where
  "widget_ok x =
     (case x of
        Built s \<Rightarrow>
          length (filter hover (children s)) \<le> 1
          \<and> (if shown s then children s \<noteq> [] else True)
      | _ \<Rightarrow> True)"

definition widgets_ok :: "'a world \<Rightarrow> bool" where
  "widgets_ok w = (\<forall>this. widget_ok (insts w this))"

section \<open>Observations\<close>

text \<open>What a user sees of an object: the rendered list, whether it is open, the searching
  indicator, the value of the field, the highlighted and the active entry.\<close>

definition list_children :: "oid \<Rightarrow> 'a world \<Rightarrow> 'a child list" where
  "list_children this w = (case insts w this of Built s \<Rightarrow> children s | _ \<Rightarrow> [])"

definition list_shown :: "oid \<Rightarrow> 'a world \<Rightarrow> bool" where
  "list_shown this w = (case insts w this of Built s \<Rightarrow> shown s | _ \<Rightarrow> False)"

definition searching :: "oid \<Rightarrow> 'a world \<Rightarrow> bool" where
  "searching this w = (case insts w this of Built s \<Rightarrow> spinning (spinner s) | _ \<Rightarrow> False)"

definition field_value :: "oid \<Rightarrow> 'a world \<Rightarrow> string" where
  "field_value this w =
     (case insts w this of
        Built s \<Rightarrow> input_value w (inputEl s)
      | NoSearchFn e st \<Rightarrow> input_value w e
      | NoInput \<Rightarrow> [])"

definition highlight :: "oid \<Rightarrow> 'a world \<Rightarrow> nat option" where
  "highlight this w = first_index hover (list_children this w)"

definition committed :: "oid \<Rightarrow> 'a world \<Rightarrow> nat option" where
  "committed this w = first_index active (list_children this w)"

section \<open>Example pages\<close>

text \<open>
  A page with one input element, found by the selector \<open>#q\<close>, whose items are strings. The
  widget is bound to it with a search function and a minimum length of 2; the user types
  \<open>ab\<close>, the debounce interval passes and the search resolves with three items.
\<close>

definition item_string :: "string option \<Rightarrow> string" where
  "item_string x = (case x of None \<Rightarrow> ''undefined'' | Some v \<Rightarrow> v)"

definition demo_options :: "string options" where
  "demo_options =
     \<lparr>opt_minLength = Some 2, opt_debounce = None, opt_searchFn = True,
      opt_labelFn = None, opt_markFn = None, opt_enterFn = False\<rparr>"

definition demo_page :: "string world" where
  "demo_page = init_world item_string (\<lambda>sel. if sel = ''#q'' then Some 0 else None) (\<lambda>_. [])"

definition demo_bound :: "string world" where
  "demo_bound = run [New (Selector ''#q'') demo_options] demo_page"

definition demo_open :: "string world" where
  "demo_open =
     run [Input 0 ''ab'', Elapse 250, Settle 0 (Resolved [''abc'', ''abd'', ''abe''])] demo_bound"

text \<open>The user then deletes one character, or the whole text, and the timer has not fired.\<close>

definition demo_short :: "string world" where
  "demo_short = run [SetValue 0 ''a''] demo_open"

definition demo_empty :: "string world" where
  "demo_empty = run [SetValue 0 []] demo_open"

text \<open>
  The user types \<open>ab\<close>, a search is dispatched; the user goes on to \<open>abc\<close> and a second
  search is dispatched while the first is in flight.
\<close>

definition demo_stale :: "string world" where
  "demo_stale = run [Input 0 ''ab'', Elapse 250, Input 0 ''abc'', Elapse 250] demo_bound"

text \<open>
  The user types \<open>ab\<close>, a search A is dispatched; the user types \<open>c\<close> and deletes it again,
  and a search B is dispatched for \<open>ab\<close> while A is in flight. B resolves first, with one
  item, which is rendered.
\<close>

definition demo_same_query :: "string world" where
  "demo_same_query =
     run [Input 0 ''ab'', Elapse 250, Input 0 ''abc'', Elapse 100, Input 0 ''ab'', Elapse 250,
          Settle 1 (Resolved [''abc''])] demo_bound"

text \<open>
  On the open list the user presses ArrowDown twice and commits the second entry with Tab,
  which closes the list; ArrowDown then opens it again.
\<close>

definition demo_committed :: "string world" where
  "demo_committed =
     run [KeyDown 0 ArrowDown, KeyDown 0 ArrowDown, KeyDown 0 Tab, KeyDown 0 ArrowDown] demo_open"




text \<open>A response that was redirected to the login page.\<close>

definition login_redirect :: "string response" where
  "login_redirect =
     \<lparr>redirected = True, url = ''https://example.org/app/login'', ok = True, json = JsonOther\<rparr>"

definition arrow_down :: key_event where
  "arrow_down = \<lparr>key = ArrowDown, defaultPrevented = False, propagationStopped = False\<rparr>"



text \<open>The user has typed \<open>a\<close> into the bound field 100 ms ago.\<close>

definition demo_typing :: "string world" where
  "demo_typing = run [Input 0 ''a'', Elapse 100] demo_bound"

section \<open>Facts about lists of children\<close>

lemma first_index_None: "first_index P xs = None \<longleftrightarrow> (\<forall>x\<in>set xs. \<not> P x)"
  by (induction xs) auto

lemma first_index_Some:
  "first_index P xs = Some i \<Longrightarrow> i < length xs \<and> P (xs ! i) \<and> (\<forall>j<i. \<not> P (xs ! j))"
proof (induction xs arbitrary: i)
  case Nil
  then show ?case by simp
next
  case (Cons x xs)
  show ?case
  proof (cases "P x")
    case True
    with Cons.prems show ?thesis by simp
  next
    case False
    with Cons.prems obtain k where k: "first_index P xs = Some k" "i = Suc k"
      by auto
    from Cons.IH [OF k(1)] False k(2) show ?thesis
      by (auto simp: nth_Cons split: nat.splits)
  qed
qed

lemma first_index_only:
  "j < length xs \<Longrightarrow> (\<forall>k<length xs. P (xs ! k) \<longleftrightarrow> k = j) \<Longrightarrow> first_index P xs = Some j"
proof (induction xs arbitrary: j)
  case Nil
  then show ?case by simp
next
  case (Cons x xs)
  show ?case
  proof (cases j)
    case 0
    with Cons.prems show ?thesis by auto
  next
    case (Suc m)
    have nx: "\<not> P x" using Cons.prems(2) Suc by (auto dest: spec [of _ 0])
    have "\<forall>k<length xs. P (xs ! k) \<longleftrightarrow> k = m"
    proof (intro allI impI)
      fix k assume "k < length xs"
      then show "P (xs ! k) \<longleftrightarrow> k = m"
        using Cons.prems(2) Suc by (auto dest!: spec [of _ "Suc k"])
    qed
    moreover have "m < length xs" using Cons.prems(1) Suc by simp
    ultimately have "first_index P xs = Some m" by (rule Cons.IH [rotated])
    with nx Suc show ?thesis by simp
  qed
qed

lemma filter_at_most_one:
  "length (filter P xs) \<le> 1 \<Longrightarrow> i < length xs \<Longrightarrow> j < length xs \<Longrightarrow> P (xs ! i) \<Longrightarrow> P (xs ! j)
   \<Longrightarrow> i = j"
proof (induction xs arbitrary: i j)
  case Nil
  then show ?case by simp
next
  case (Cons x xs)
  show ?case
  proof (cases "P x")
    case True
    with Cons.prems(1) have none: "\<forall>y\<in>set xs. \<not> P y"
      by (auto simp: filter_empty_conv)
    have "i = 0" using Cons.prems(2,4) none by (cases i) auto
    moreover have "j = 0" using Cons.prems(3,5) none by (cases j) auto
    ultimately show ?thesis by simp
  next
    case False
    then obtain i' j' where "i = Suc i'" "j = Suc j'"
      using Cons.prems(4,5) by (cases i; cases j) auto
    with Cons.IH [of i' j'] Cons.prems False show ?thesis by auto
  qed
qed

text \<open>The only highlighted child, once the hover of the current one is removed and that of
  the next one is set.\<close>

lemma hover_only_current:
  assumes "length (filter hover cs) \<le> 1" and "k < length cs" and "hover (cs ! k)"
  shows "currentEl cs = Some k"
proof (cases "first_index hover cs")
  case None
  with assms(2,3) show ?thesis by (auto simp: first_index_None)
next
  case (Some i)
  then have "i < length cs" "hover (cs ! i)" using first_index_Some by fastforce+
  with assms have "i = k" using filter_at_most_one by blast
  with Some show ?thesis by (simp add: currentEl_def)
qed

lemma currentEl_bound: "currentEl cs = Some i \<Longrightarrow> i < length cs"
  using first_index_Some by (fastforce simp: currentEl_def split: option.splits)

lemma nth_keeps_marks:
  "k < length cs \<Longrightarrow> active (cs[i := (cs ! i)\<lparr>hover := b\<rparr>] ! k) = active (cs ! k)"
  "k < length cs \<Longrightarrow> suggestItem (cs[i := (cs ! i)\<lparr>hover := b\<rparr>] ! k) = suggestItem (cs ! k)"
  by (cases "i = k"; simp)+

text \<open>The children after \<open>#moveHover\<close> has taken the hover from \<open>cur\<close> and set it on \<open>j\<close>.\<close>

lemma moved_children:
  assumes one: "length (filter hover cs) \<le> 1" and j: "j < length cs"
    and cs1: "cs1 = (case currentEl cs of Some i \<Rightarrow> cs[i := (cs ! i)\<lparr>hover := False\<rparr>] | None \<Rightarrow> cs)"
  shows "map hover (cs1[j := (cs1 ! j)\<lparr>hover := True\<rparr>]) = map (\<lambda>k. k = j) [0..<length cs]"
    and "map active (cs1[j := (cs1 ! j)\<lparr>hover := True\<rparr>]) = map active cs"
    and "map suggestItem (cs1[j := (cs1 ! j)\<lparr>hover := True\<rparr>]) = map suggestItem cs"
proof -
  have len: "length cs1 = length cs" by (simp add: cs1 split: option.splits)
  have h: "hover (cs1 ! k) \<Longrightarrow> k < length cs \<Longrightarrow> False" for k
  proof (cases "currentEl cs")
    case None
    assume a: "hover (cs1 ! k)" "k < length cs"
    with None cs1 have "hover (cs ! k)" by simp
    then have "currentEl cs = Some k" using one a(2) by (simp add: hover_only_current)
    with None show False by simp
  next
    case (Some i)
    assume a: "hover (cs1 ! k)" "k < length cs"
    have i: "i < length cs" using Some by (rule currentEl_bound)
    show False
    proof (cases "k = i")
      case True
      with a Some cs1 i show False by simp
    next
      case False
      with a Some cs1 have "hover (cs ! k)" by simp
      then have "currentEl cs = Some k" using one a(2) by (simp add: hover_only_current)
      with Some False show False by simp
    qed
  qed
  show "map hover (cs1[j := (cs1 ! j)\<lparr>hover := True\<rparr>]) = map (\<lambda>k. k = j) [0..<length cs]"
    using len j h by (intro nth_equalityI) (auto simp: nth_list_update)
  have a: "active (cs1 ! k) = active (cs ! k)" "suggestItem (cs1 ! k) = suggestItem (cs ! k)"
    if "k < length cs" for k
    using that by (simp_all add: cs1 nth_keeps_marks split: option.splits)
  show "map active (cs1[j := (cs1 ! j)\<lparr>hover := True\<rparr>]) = map active cs"
    using len a by (intro nth_equalityI) (simp_all add: nth_keeps_marks)
  show "map suggestItem (cs1[j := (cs1 ! j)\<lparr>hover := True\<rparr>]) = map suggestItem cs"
    using len a by (intro nth_equalityI) (simp_all add: nth_keeps_marks)
qed

lemma filter_only:
  "(\<forall>k<length xs. P (xs ! k) \<longrightarrow> k = i) \<Longrightarrow> length (filter P xs) \<le> 1"
proof (induction xs arbitrary: i)
  case Nil
  then show ?case by simp
next
  case (Cons x xs)
  show ?case
  proof (cases "P x")
    case True
    have "i = 0" using Cons.prems True by (auto dest: spec [of _ 0])
    have "\<not> P y" if "y \<in> set xs" for y
    proof
      assume "P y"
      from that obtain k where "k < length xs" "xs ! k = y" by (auto simp: in_set_conv_nth)
      with \<open>P y\<close> Cons.prems have "Suc k = i" by (auto dest!: spec [of _ "Suc k"])
      with \<open>i = 0\<close> show False by simp
    qed
    then have "filter P xs = []" by (simp add: filter_empty_conv)
    with True show ?thesis by simp
  next
    case False
    have "\<forall>k<length xs. P (xs ! k) \<longrightarrow> k = i - 1"
    proof (intro allI impI)
      fix k assume "k < length xs" "P (xs ! k)"
      with Cons.prems have "Suc k = i" by (auto dest!: spec [of _ "Suc k"])
      then show "k = i - 1" by simp
    qed
    then have "length (filter P xs) \<le> 1" by (rule Cons.IH)
    with False show ?thesis by simp
  qed
qed

lemma only_hover_at:
  assumes "map hover cs = map (\<lambda>j. j = i) [0..<length cs]" and "i < length cs"
  shows "first_index hover cs = Some i" and "length (filter hover cs) \<le> 1"
proof -
  have p: "\<forall>k<length cs. hover (cs ! k) \<longleftrightarrow> k = i"
  proof (intro allI impI)
    fix k assume k: "k < length cs"
    then have "hover (cs ! k) = map hover cs ! k" by simp
    also have "\<dots> = (k = i)" using k by (simp add: assms(1))
    finally show "hover (cs ! k) \<longleftrightarrow> k = i" .
  qed
  show "first_index hover cs = Some i" using assms(2) p by (rule first_index_only)
  from p have "\<forall>k<length cs. hover (cs ! k) \<longrightarrow> k = i" by blast
  then show "length (filter hover cs) \<le> 1" by (rule filter_only)
qed

lemma no_mark: "first_index P cs = None \<longleftrightarrow> map P cs = replicate (length cs) False"
  by (induction cs) auto

lemma run_replicate_Suc: "run (replicate (Suc k) ev) w = step ev (run (replicate k ev) w)"
  unfolding run_def by (induction k arbitrary: w) simp_all

lemma run_append: "run (xs @ ys) w = run ys (run xs w)"
  by (simp add: run_def)

lemma step_run: "step ev (run evs w) = run (evs @ [ev]) w"
  by (simp add: run_def)

lemma map_active_commit:
  "i < length cs \<Longrightarrow> active x \<Longrightarrow>
   map active ((map (\<lambda>c. c\<lparr>active := False, hover := False\<rparr>) cs)[i := x])
     = map (\<lambda>j. j = i) [0..<length cs]"
  by (rule nth_equalityI) (auto simp: nth_list_update)

lemma map_hover_commit:
  "i < length cs \<Longrightarrow> \<not> hover x \<Longrightarrow>
   map hover ((map (\<lambda>c. c\<lparr>active := False, hover := False\<rparr>) cs)[i := x])
     = replicate (length cs) False"
  by (rule nth_equalityI) (auto simp: nth_list_update)

lemma map_item_commit:
  "i < length cs \<Longrightarrow> suggestItem x = suggestItem (cs ! i) \<Longrightarrow>
   map suggestItem ((map (\<lambda>c. c\<lparr>active := False, hover := False\<rparr>) cs)[i := x])
     = map suggestItem cs"
  by (rule nth_equalityI) (auto simp: nth_list_update)


section \<open>The example pages are fully constructed\<close>

lemma demo_bound_built: "is_Built (insts demo_bound 0)"
  by code_simp

lemma demo_typing_built: "is_Built (insts demo_typing 0)"
  by code_simp

lemma demo_open_built: "is_Built (insts demo_open 0)"
  by code_simp

lemma demo_short_built: "is_Built (insts demo_short 0)"
  by code_simp

lemma demo_empty_built: "is_Built (insts demo_empty 0)"
  by code_simp

lemma demo_stale_built: "is_Built (insts demo_stale 0)"
  by code_simp


section \<open>Facts about the clock and the debounce timer\<close>

lemma run_due_idle: "timers w = [] \<Longrightarrow> run_due w = w"
  by (simp add: run_due_def)

lemma elapse_idle: "timers w = [] \<Longrightarrow> elapse d w = w\<lparr>now := now w + d\<rparr>"
  by (induction d arbitrary: w) (simp_all add: run_due_idle)

lemma run_due_wait:
  "timers w = [(t, due, this)] \<Longrightarrow> now w < due \<Longrightarrow> run_due w = w"
  by (simp add: run_due_def)

lemma elapse_wait:
  "timers w = [(t, due, this)] \<Longrightarrow> now w + d < due \<Longrightarrow> elapse d w = w\<lparr>now := now w + d\<rparr>"
  by (induction d arbitrary: w) (simp_all add: run_due_wait)

lemma timerCallback_now:
  "timerCallback this (w\<lparr>now := n\<rparr>) = (timerCallback this w)\<lparr>now := n\<rparr>"
  by (cases "insts w this")
    (auto simp: timerCallback_def refresh_def clear_def put_def hide_b_def Let_def
      split: suggest.splits)

lemma timerCallback_now_timers:
  "timerCallback this (w\<lparr>now := n, timers := ts\<rparr>)
     = (timerCallback this (w\<lparr>timers := ts\<rparr>))\<lparr>now := n\<rparr>"
  by (cases "insts w this")
    (auto simp: timerCallback_def refresh_def clear_def put_def hide_b_def Let_def
      split: suggest.splits)

lemma timerCallback_timers: "timers (timerCallback this w) = timers w"
  by (cases "insts w this")
    (auto simp: timerCallback_def refresh_def clear_def put_def hide_b_def Let_def
      split: suggest.splits)

lemma run_due_fire:
  "timers w = [(t, due, this)] \<Longrightarrow> due \<le> now w \<Longrightarrow>
   run_due w = timerCallback this (w\<lparr>timers := []\<rparr>)"
  by (simp add: run_due_def fire_def)

lemma elapse_fire:
  "timers w = [(t, due, this)] \<Longrightarrow> due \<le> now w + d \<Longrightarrow> 0 < d \<Longrightarrow>
   elapse d w = (timerCallback this (w\<lparr>timers := []\<rparr>))\<lparr>now := now w + d\<rparr>"
proof (induction d arbitrary: w)
  case 0
  then show ?case by simp
next
  case (Suc d)
  let ?w1 = "w\<lparr>now := Suc (now w)\<rparr>"
  show ?case
  proof (cases "due \<le> Suc (now w)")
    case True
    have "run_due ?w1 = timerCallback this (?w1\<lparr>timers := []\<rparr>)"
      by (rule run_due_fire [where t = t and due = due]) (use Suc.prems(1) True in simp_all)
    also have "\<dots> = (timerCallback this (w\<lparr>timers := []\<rparr>))\<lparr>now := Suc (now w)\<rparr>"
      by (simp add: timerCallback_now_timers timerCallback_now)
    finally have r: "run_due ?w1 = (timerCallback this (w\<lparr>timers := []\<rparr>))\<lparr>now := Suc (now w)\<rparr>" .
    have "timers (run_due ?w1) = []"
      unfolding r by (simp add: timerCallback_timers)
    then have "elapse d (run_due ?w1) = (run_due ?w1)\<lparr>now := now (run_due ?w1) + d\<rparr>"
      by (rule elapse_idle)
    then show ?thesis by (simp add: r)
  next
    case False
    have w: "run_due ?w1 = ?w1"
      by (rule run_due_wait [where t = t and due = due and this = this])
        (use Suc.prems(1) False in simp_all)
    have d: "0 < d" using False Suc.prems(2) by (cases d) auto
    have "elapse d ?w1 = (timerCallback this (?w1\<lparr>timers := []\<rparr>))\<lparr>now := now ?w1 + d\<rparr>"
      by (rule Suc.IH) (use Suc.prems(1,2) d in simp_all)
    also have "\<dots> = (timerCallback this (w\<lparr>timers := []\<rparr>))\<lparr>now := now w + Suc d\<rparr>"
      by (simp add: timerCallback_now_timers timerCallback_now)
    finally show ?thesis using w by simp
  qed
qed


lemma first_keystroke:
  assumes "insts w this = Built s" and "timers w = []" and "0 < nextTimer w"
  shows "step (Input this v) w
           = w\<lparr>input_value := (input_value w)(inputEl s := v),
               timers := [(nextTimer w, now w + debounce (settings s), this)],
               nextTimer := Suc (nextTimer w),
               insts := (insts w)(this := Built (s\<lparr>timeoutId := Some (nextTimer w)\<rparr>))\<rparr>"
  using assms
  by (simp add: onInput_def debounceRefresh_def attempt_def clearTimeout_def setTimeout_def
      put_def Let_def split: option.splits)

lemma next_keystroke:
  assumes "insts w this = Built s" and "timeoutId s = Some t" and "t \<noteq> 0"
    and "timers w = [(t, due, this)]" and "now w + g < due" and "0 < nextTimer w"
  shows "step (Input this v) (step (Elapse g) w)
           = w\<lparr>now := now w + g,
               input_value := (input_value w)(inputEl s := v),
               timers := [(nextTimer w, now w + g + debounce (settings s), this)],
               nextTimer := Suc (nextTimer w),
               insts := (insts w)(this := Built (s\<lparr>timeoutId := Some (nextTimer w)\<rparr>))\<rparr>"
  using assms
  by (simp add: elapse_wait [where t = t and due = due and this = this]
      onInput_def debounceRefresh_def attempt_def clearTimeout_def setTimeout_def
      put_def Let_def)

lemma armed_keystrokes:
  assumes "insts w this = Built s" and "timeoutId s = Some t" and "t \<noteq> 0"
    and "timers w = [(t, now w + debounce (settings s), this)]" and "0 < nextTimer w"
    and "list_all (\<lambda>k. fst k < debounce (settings s)) ks"
  shows "\<exists>t'. t' \<noteq> 0
           \<and> insts (run (keystrokes this ks) w) this = Built (s\<lparr>timeoutId := Some t'\<rparr>)
           \<and> timers (run (keystrokes this ks) w)
               = [(t', now (run (keystrokes this ks) w) + debounce (settings s), this)]
           \<and> calls (run (keystrokes this ks) w) = calls w
           \<and> pending (run (keystrokes this ks) w) = pending w
           \<and> input_value (run (keystrokes this ks) w) (inputEl s)
               = last (input_value w (inputEl s) # map snd ks)"
  using assms
proof (induction ks arbitrary: w s t)
  case Nil
  then show ?case by (cases s) (simp add: run_def)
next
  case (Cons k ks)
  let ?w1 = "step (Input this (snd k)) (step (Elapse (fst k)) w)"
  let ?s1 = "s\<lparr>timeoutId := Some (nextTimer w)\<rparr>"
  have g: "now w + fst k < now w + debounce (settings s)" using Cons.prems(6) by simp
  note w1 = next_keystroke [OF Cons.prems(1-4) g Cons.prems(5), of "snd k"]
  have "\<exists>t'. t' \<noteq> 0
           \<and> insts (run (keystrokes this ks) ?w1) this = Built (?s1\<lparr>timeoutId := Some t'\<rparr>)
           \<and> timers (run (keystrokes this ks) ?w1)
               = [(t', now (run (keystrokes this ks) ?w1) + debounce (settings ?s1), this)]
           \<and> calls (run (keystrokes this ks) ?w1) = calls ?w1
           \<and> pending (run (keystrokes this ks) ?w1) = pending ?w1
           \<and> input_value (run (keystrokes this ks) ?w1) (inputEl ?s1)
               = last (input_value ?w1 (inputEl ?s1) # map snd ks)"
  proof (rule Cons.IH)
    show "insts ?w1 this = Built ?s1" unfolding w1 by simp
    show "timeoutId ?s1 = Some (nextTimer w)" by simp
    show "nextTimer w \<noteq> 0" using Cons.prems(5) by simp
    show "timers ?w1 = [(nextTimer w, now ?w1 + debounce (settings ?s1), this)]"
      unfolding w1 by simp
    show "0 < nextTimer ?w1" unfolding w1 by simp
    show "list_all (\<lambda>k. fst k < debounce (settings ?s1)) ks" using Cons.prems(6) by simp
  qed
  moreover have "run (keystrokes this (k # ks)) w = run (keystrokes this ks) ?w1"
    by (simp add: run_def)
  moreover have "calls ?w1 = calls w" "pending ?w1 = pending w"
    "input_value ?w1 (inputEl s) = snd k"
    unfolding w1 by simp_all
  ultimately show ?case by (cases ks) auto
qed


lemma timerCallback_effect:
  assumes "insts w this = Built s"
  shows "calls (timerCallback this w)
           = calls w @ (if input_value w (inputEl s) = [] then [ClearFn this]
                        else if int (length (input_value w (inputEl s))) < minLength (settings s)
                        then []
                        else [SearchFn this (input_value w (inputEl s))])"
    and "pending (timerCallback this w)
           = pending w @ (if input_value w (inputEl s) \<noteq> []
                             \<and> minLength (settings s) \<le> int (length (input_value w (inputEl s)))
                          then [(this, input_value w (inputEl s))] else [])"
  using assms
  by (auto simp: timerCallback_def refresh_def clear_def put_def hide_b_def Let_def)

section \<open>Facts about the registry\<close>











































section \<open>Facts about the rendered lists of reachable worlds\<close>

lemma widget_ok_unbuilt: "widget_ok NoInput" "widget_ok (NoSearchFn e st)"
  by (simp_all add: widget_ok_def)

lemma widgets_ok_put: "widgets_ok w \<Longrightarrow> widget_ok (Built s) \<Longrightarrow> widgets_ok (put this s w)"
  by (simp add: widgets_ok_def put_def)

lemma widgets_okD: "widgets_ok w \<Longrightarrow> insts w this = Built s \<Longrightarrow> widget_ok (Built s)"
  by (metis widgets_ok_def)

lemma widgets_ok_fields:
  "widgets_ok (w\<lparr>input_value := a\<rparr>) = widgets_ok w"
  "widgets_ok (w\<lparr>calls := b\<rparr>) = widgets_ok w"
  "widgets_ok (w\<lparr>pending := c\<rparr>) = widgets_ok w"
  "widgets_ok (w\<lparr>timers := d\<rparr>) = widgets_ok w"
  "widgets_ok (w\<lparr>nextTimer := e\<rparr>) = widgets_ok w"
  "widgets_ok (w\<lparr>now := f\<rparr>) = widgets_ok w"
  "widgets_ok (w\<lparr>console := g\<rparr>) = widgets_ok w"
  "widgets_ok (w\<lparr>dom_log := h\<rparr>) = widgets_ok w"
  "widgets_ok (w\<lparr>nextOid := i\<rparr>) = widgets_ok w"
  "widgets_ok (w\<lparr>initializedEls := j\<rparr>) = widgets_ok w"
  "widgets_ok (w\<lparr>documentListener := k\<rparr>) = widgets_ok w"
  by (simp_all add: widgets_ok_def)

lemma widget_ok_simps:
  "widget_ok (Built s) \<Longrightarrow> widget_ok (Built (show_b s))"
  "widget_ok (Built s) \<Longrightarrow> widget_ok (Built (hide_b s))"
  "widget_ok (Built ((hide_b s)\<lparr>children := []\<rparr>))"
  "widget_ok (Built s) \<Longrightarrow> widget_ok (Built (s\<lparr>spinner := sp\<rparr>))"
  "widget_ok (Built s) \<Longrightarrow> widget_ok (Built (s\<lparr>timeoutId := t\<rparr>))"
  "widget_ok (Built (updateList q l s))"
  "widget_ok (Built (fst (snd (showError m s))))"
  by (auto simp: widget_ok_def show_b_def hide_b_def updateList_def showError_def Let_def
      newItemEl_def errorEl_def filter_empty_conv split: rejection.splits)

lemma no_hover_update:
  "\<forall>c\<in>set cs. \<not> hover c \<Longrightarrow> length (filter hover (cs[i := x])) \<le> 1"
proof (induction cs arbitrary: i)
  case Nil
  then show ?case by simp
next
  case (Cons c cs)
  show ?case
  proof (cases i)
    case 0
    with Cons.prems show ?thesis by (simp add: filter_empty_conv)
  next
    case (Suc j)
    with Cons.prems Cons.IH [of j] show ?thesis by simp
  qed
qed

lemma ok_show_list: "widgets_ok w \<Longrightarrow> show_list this w = Inr w' \<Longrightarrow> widgets_ok w'"
  by (auto simp: show_list_def split: suggest.splits
      intro!: widgets_ok_put widget_ok_simps dest: widgets_okD)

lemma ok_hide: "widgets_ok w \<Longrightarrow> hide this w = Inr w' \<Longrightarrow> widgets_ok w'"
  by (auto simp: hide_def split: suggest.splits
      intro!: widgets_ok_put widget_ok_simps dest: widgets_okD)

lemma ok_clear: "widgets_ok w \<Longrightarrow> clear this w = Inr w' \<Longrightarrow> widgets_ok w'"
  by (auto simp: clear_def widgets_ok_fields split: suggest.splits
      intro!: widgets_ok_put widget_ok_simps)

lemma ok_refresh: "widgets_ok w \<Longrightarrow> refresh this w = Inr w' \<Longrightarrow> widgets_ok w'"
  by (auto simp: refresh_def widgets_ok_fields Let_def split: suggest.splits if_splits sum.splits
      intro!: widgets_ok_put widget_ok_simps dest: widgets_okD ok_clear)

lemma ok_debounceRefresh: "widgets_ok w \<Longrightarrow> debounceRefresh this w = Inr w' \<Longrightarrow> widgets_ok w'"
  by (auto simp: debounceRefresh_def clearTimeout_def setTimeout_def widgets_ok_fields Let_def
      split: suggest.splits option.splits
      intro!: widgets_ok_put widget_ok_simps dest: widgets_okD)

lemma ok_showError: "showError m s = (x, s1, l) \<Longrightarrow> widget_ok (Built s1)"
  using widget_ok_simps(7) [of m s] by simp

lemma ok_refresh_resume: "widgets_ok w \<Longrightarrow> widgets_ok (refresh_resume this q out w)"
  by (auto simp: refresh_resume_def widgets_ok_fields Let_def
      split: suggest.splits outcome.splits prod.splits option.splits
      intro!: widgets_ok_put widget_ok_simps dest: ok_showError)

lemma ok_settle: "widgets_ok w \<Longrightarrow> widgets_ok (settle k out w)"
  by (simp add: settle_def ok_refresh_resume widgets_ok_fields)

lemma ok_timerCallback: "widgets_ok w \<Longrightarrow> widgets_ok (timerCallback this w)"
proof (cases "insts w this")
  case (Built s)
  assume ok: "widgets_ok w"
  let ?w1 = "put this (s\<lparr>timeoutId := None\<rparr>) w"
  have 1: "widgets_ok ?w1"
    using ok Built by (auto intro!: widgets_ok_put widget_ok_simps dest: widgets_okD)
  show ?thesis
  proof (cases "refresh this ?w1")
    case (Inl x)
    with Built 1 show ?thesis by (simp add: timerCallback_def)
  next
    case (Inr w2)
    with Built ok_refresh [OF 1 Inr] show ?thesis by (simp add: timerCallback_def)
  qed
qed (simp_all add: timerCallback_def)

lemma ok_fire: "widgets_ok w \<Longrightarrow> widgets_ok (fire t w)"
  by (simp add: fire_def ok_timerCallback widgets_ok_fields)

lemma ok_fold_fire: "widgets_ok w \<Longrightarrow> widgets_ok (fold fire ts w)"
  by (induction ts arbitrary: w) (simp_all add: ok_fire)

lemma ok_elapse: "widgets_ok w \<Longrightarrow> widgets_ok (elapse d w)"
  by (induction d arbitrary: w) (simp_all add: run_due_def ok_fold_fire widgets_ok_fields)

lemma cleared_update:
  "length (filter hover ((map (\<lambda>c. c\<lparr>active := False, hover := False\<rparr>) cs)[i := x])) \<le> Suc 0"
  "length (filter hover ((map (\<lambda>c. c\<lparr>hover := False\<rparr>) cs)[i := x])) \<le> Suc 0"
  using no_hover_update [of "map (\<lambda>c. c\<lparr>active := False, hover := False\<rparr>) cs" i x]
    no_hover_update [of "map (\<lambda>c. c\<lparr>hover := False\<rparr>) cs" i x]
  by simp_all

lemma ok_select:
  assumes "widgets_ok w" and "select this t w = Inr w'"
  shows "widgets_ok w'"
proof (cases "insts w this")
  case (Built s)
  show ?thesis
  proof (cases t)
    case None
    with assms show ?thesis by (simp add: select_def)
  next
    case (Some u)
    show ?thesis
    proof (cases u)
      case ListEl
      with assms Some Built show ?thesis by (simp add: select_def)
    next
      case (Child i)
      show ?thesis
      proof (cases "i < length (children s)")
        case True
        let ?cs = "map (\<lambda>c. c\<lparr>active := False, hover := False\<rparr>) (children s)"
        let ?s' = "hide_b (s\<lparr>children := ?cs[i := (?cs ! i)\<lparr>active := True\<rparr>]\<rparr>)"
        have "widget_ok (Built ?s')"
          by (simp add: widget_ok_def hide_b_def cleared_update)
        then have "widgets_ok (put this ?s' w)" using assms(1) by (intro widgets_ok_put)
        moreover have "w' = (put this ?s' w)
                         \<lparr>input_value := (input_value w)
                            (inputEl s := labelFn (settings s) (suggestItem (children s ! i))),
                          calls := calls w @ [SelectFn this (suggestItem (children s ! i)) i]\<rparr>"
          using assms(2) Some Child Built True by (simp add: select_def Let_def)
        ultimately show ?thesis by (simp add: widgets_ok_fields)
      next
        case False
        with assms Some Child Built show ?thesis by (simp add: select_def)
      qed
    qed
  qed
next
  case NoInput
  with assms show ?thesis by (auto simp: select_def split: option.splits)
next
  case (NoSearchFn e st)
  with assms show ?thesis by (auto simp: select_def split: option.splits)
qed

lemma ok_onMouseenter:
  assumes "widgets_ok w"
  shows "widgets_ok (onMouseenter this i w)"
proof (cases "insts w this")
  case (Built s)
  let ?cs = "map (\<lambda>c. c\<lparr>hover := False\<rparr>) (children s)"
  have ok: "widget_ok (Built s)" using assms Built by (rule widgets_okD)
  have 1: "widget_ok (Built (s\<lparr>children := ?cs[i := (?cs ! i)\<lparr>hover := True\<rparr>]\<rparr>))"
    if "i < length (children s)"
    using ok that by (auto simp: widget_ok_def cleared_update split: if_splits)
  have 2: "widget_ok (Built (s\<lparr>children := ?cs\<rparr>))"
    using ok by (auto simp: widget_ok_def filter_empty_conv split: if_splits)
  show ?thesis
    using Built 1 2 assms by (simp add: onMouseenter_def Let_def widgets_ok_put)
qed (use assms in \<open>simp_all add: onMouseenter_def\<close>)

lemma ok_moveHover:
  assumes "widgets_ok w" and "moveHover this e c l w = Inr r"
  shows "widgets_ok (snd r)"
proof (cases "insts w this")
  case (Built s)
  let ?cs = "children s"
  define cs1 where
    "cs1 = (case currentEl ?cs of Some i \<Rightarrow> ?cs[i := (?cs ! i)\<lparr>hover := False\<rparr>] | None \<Rightarrow> ?cs)"
  define nextEl where
    "nextEl = (case currentEl ?cs of
                 Some i \<Rightarrow>
                   (case sibling_of c (length ?cs) i of
                      Some j \<Rightarrow> Some j
                    | None \<Rightarrow> edge_of l (length ?cs))
               | None \<Rightarrow> edge_of l (length ?cs))"
  have m: "moveHover this e c l w
             = (case nextEl of
                  None \<Rightarrow> Inl TypeError
                | Some j \<Rightarrow>
                    Inr (e\<lparr>propagationStopped := True, defaultPrevented := True\<rparr>,
                         put this (s\<lparr>children := cs1[j := (cs1 ! j)\<lparr>hover := True\<rparr>]\<rparr>) w))"
    using Built unfolding cs1_def nextEl_def by (simp add: moveHover_def Let_def)
  from assms(2) m obtain j where nj: "nextEl = Some j"
    and r: "snd r = put this (s\<lparr>children := cs1[j := (cs1 ! j)\<lparr>hover := True\<rparr>]\<rparr>) w"
    by (cases nextEl) auto
  have j: "j < length ?cs"
    using nj
    by (cases c; cases l)
      (auto simp: nextEl_def dest: currentEl_bound split: option.splits if_splits)
  have ok: "widget_ok (Built s)" using assms(1) Built by (rule widgets_okD)
  then have one: "length (filter hover ?cs) \<le> 1" by (simp add: widget_ok_def)
  note mc = moved_children(1) [OF one j cs1_def]
  have len: "length (cs1[j := (cs1 ! j)\<lparr>hover := True\<rparr>]) = length ?cs"
    by (simp add: cs1_def split: option.splits)
  have "length (filter hover (cs1[j := (cs1 ! j)\<lparr>hover := True\<rparr>])) \<le> 1"
    using only_hover_at(2) [of "cs1[j := (cs1 ! j)\<lparr>hover := True\<rparr>]" j] mc j len by simp
  moreover have "cs1[j := (cs1 ! j)\<lparr>hover := True\<rparr>] \<noteq> []" using len j by auto
  ultimately have "widget_ok (Built (s\<lparr>children := cs1[j := (cs1 ! j)\<lparr>hover := True\<rparr>]\<rparr>))"
    by (simp add: widget_ok_def)
  then show ?thesis unfolding r using assms(1) by (intro widgets_ok_put)
qed (use assms in \<open>simp_all add: moveHover_def\<close>)

lemma ok_findSelectedEl:
  assumes "widgets_ok w" and "findSelectedEl this e w = Inr r"
  shows "widgets_ok (snd r)"
  using assms
  by (auto simp: findSelectedEl_def Let_def widgets_ok_fields
      split: suggest.splits if_splits sum.splits dest: ok_select)

lemma ok_handleKeyEvent:
  assumes "widgets_ok w" and "handleKeyEvent this e w = Inr r"
  shows "widgets_ok (snd r)"
  using assms
  by (auto simp: handleKeyEvent_def split: suggest.splits if_splits sum.splits
      dest: ok_show_list ok_moveHover ok_findSelectedEl)

lemma ok_documentOnClick_loop:
  "widgets_ok w \<Longrightarrow> documentOnClick_loop t os w = Inr w' \<Longrightarrow> widgets_ok w'"
proof (induction os arbitrary: w)
  case Nil
  then show ?case by simp
next
  case (Cons a os)
  show ?case
  proof (cases "insts w a")
    case (Built s)
    let ?w1 = "put a (hide_b (s\<lparr>children := map (\<lambda>c. c\<lparr>hover := False\<rparr>) (children s)\<rparr>)) w"
    have "widget_ok (Built (hide_b (s\<lparr>children := map (\<lambda>c. c\<lparr>hover := False\<rparr>) (children s)\<rparr>)))"
      by (simp add: widget_ok_def hide_b_def filter_empty_conv)
    then have 1: "widgets_ok ?w1" using Cons.prems(1) by (intro widgets_ok_put)
    from Cons.prems Built Cons.IH [of ?w1] Cons.IH [of w] 1 show ?thesis
      by (auto split: if_splits)
  qed (use Cons.prems in simp_all)
qed

lemma ok_destroy: "widgets_ok w \<Longrightarrow> destroy this w = Inr w' \<Longrightarrow> widgets_ok w'"
  by (auto simp: destroy_def Let_def widgets_ok_fields split: suggest.splits if_splits
      intro!: widgets_ok_put widget_ok_simps dest: widgets_okD)

lemma ok_new:
  assumes "widgets_ok w" and "new_Suggest el options w = Inr r"
  shows "widgets_ok (snd r)"
proof (cases "case el of Selector sel \<Rightarrow> querySelector w sel | Element e \<Rightarrow> e")
  case None
  with assms show ?thesis
    by (auto simp: new_Suggest_def Let_def widgets_ok_def widget_ok_unbuilt)
next
  case (Some e)
  let ?w0 = "w\<lparr>nextOid := Suc (nextOid w)\<rparr>"
  obtain w1 where w1: "(case map_of (initializedEls ?w0) e of
                          Some old \<Rightarrow> destroy old ?w0 | None \<Rightarrow> Inr ?w0) = Inr w1"
    using assms(2) Some by (auto simp: new_Suggest_def Let_def split: sum.splits)
  have ok0: "widgets_ok ?w0" using assms(1) by (simp add: widgets_ok_fields)
  have ok1: "widgets_ok w1"
    using w1 ok0 by (auto split: option.splits dest: ok_destroy [OF ok0])
  have "widget_ok (Built \<lparr>settings = st, inputEl = e, children = [], shown = False,
                             spinner = sp, timeoutId = None\<rparr>)" for st :: "'a settings" and sp
    by (simp add: widget_ok_def)
  then show ?thesis
    using assms(2) Some w1 ok1
    by (auto simp: new_Suggest_def Let_def widgets_ok_def widget_ok_unbuilt put_def
        split: if_splits)
qed

lemma ok_attempt:
  assumes "widgets_ok w" and "\<And>w'. r = Inr w' \<Longrightarrow> widgets_ok w'"
  shows "widgets_ok (attempt r w)"
  using assms by (cases r) (auto simp: attempt_def)

lemma ok_step:
  assumes ok: "widgets_ok w"
  shows "widgets_ok (step ev w)"
proof (cases ev)
  case (New el options)
  then show ?thesis using ok ok_new [of w el options] by (auto split: sum.splits)
next
  case (Destroy this)
  have "widgets_ok (attempt (destroy this w) w)"
    by (rule ok_attempt [OF ok]) (erule ok_destroy [OF ok])
  then show ?thesis using Destroy by simp
next
  case (Show this)
  have "widgets_ok (attempt (show_list this w) w)"
    by (rule ok_attempt [OF ok]) (erule ok_show_list [OF ok])
  then show ?thesis using Show by simp
next
  case (Hide this)
  have "widgets_ok (attempt (hide this w) w)"
    by (rule ok_attempt [OF ok]) (erule ok_hide [OF ok])
  then show ?thesis using Hide by simp
next
  case (Clear this)
  have "widgets_ok (attempt (clear this w) w)"
    by (rule ok_attempt [OF ok]) (erule ok_clear [OF ok])
  then show ?thesis using Clear by simp
next
  case (Refresh this)
  have "widgets_ok (attempt (refresh this w) w)"
    by (rule ok_attempt [OF ok]) (erule ok_refresh [OF ok])
  then show ?thesis using Refresh by simp
next
  case (Input this v)
  show ?thesis
  proof (cases "insts w this")
    case (Built s)
    let ?w1 = "w\<lparr>input_value := (input_value w)(inputEl s := v)\<rparr>"
    have 1: "widgets_ok ?w1" using ok by (simp add: widgets_ok_fields)
    have "widgets_ok (attempt (debounceRefresh this ?w1) ?w1)"
      by (rule ok_attempt [OF 1]) (erule ok_debounceRefresh [OF 1])
    then show ?thesis using Input Built by (simp add: onInput_def)
  qed (use ok Input in simp_all)
next
  case (Focus this)
  have "widgets_ok (attempt (show_list this w) w)"
    by (rule ok_attempt [OF ok]) (erule ok_show_list [OF ok])
  then show ?thesis using Focus by (simp add: onFocus_def)
next
  case (Click this)
  have "widgets_ok (attempt (onClick this w) w)"
    by (rule ok_attempt [OF ok])
      (auto simp: onClick_def split: suggest.splits if_splits
        dest: ok_show_list [OF ok] ok_hide [OF ok])
  then show ?thesis using Click by simp
next
  case (KeyDown this k)
  show ?thesis
  proof (cases "handleKeyEvent this \<lparr>key = k, defaultPrevented = False, propagationStopped = False\<rparr> w")
    case (Inl x)
    with KeyDown ok show ?thesis by simp
  next
    case (Inr r)
    have "widgets_ok (snd r)" using ok Inr by (rule ok_handleKeyEvent)
    with KeyDown Inr show ?thesis by simp
  qed
next
  case (ListClick this t)
  have "widgets_ok (attempt (select this (Some t) w) w)"
    by (rule ok_attempt [OF ok]) (erule ok_select [OF ok])
  then show ?thesis using ListClick by (simp add: onListClick_def)
next
  case (MouseEnter this i)
  then show ?thesis using ok by (simp add: ok_onMouseenter split: suggest.splits)
next
  case (DocumentClick t)
  have "widgets_ok (attempt (documentOnClick t w) w)"
    by (rule ok_attempt [OF ok])
      (simp add: documentOnClick_def ok_documentOnClick_loop [OF ok])
  then show ?thesis using DocumentClick ok by simp
next
  case (SetValue e v)
  then show ?thesis using ok by (simp add: widgets_ok_fields)
next
  case (Elapse d)
  then show ?thesis using ok by (simp add: ok_elapse)
next
  case (Settle k out)
  then show ?thesis using ok by (simp add: ok_settle)
qed

lemma ok_run: "widgets_ok w \<Longrightarrow> widgets_ok (run evs w)"
  unfolding run_def by (induction evs arbitrary: w) (simp_all add: ok_step)

lemma ok_init: "widgets_ok (init_world str qs vals)"
  by (simp add: widgets_ok_def widget_ok_def init_world_def)

lemma reachable_open_list:
  assumes "list_shown this (run evs (init_world str qs vals))"
  shows "\<exists>s. insts (run evs (init_world str qs vals)) this = Built s \<and> shown s
             \<and> children s \<noteq> [] \<and> length (filter hover (children s)) \<le> 1"
proof -
  let ?w = "run evs (init_world str qs vals)"
  from assms obtain s where s: "insts ?w this = Built s" "shown s"
    by (auto simp: list_shown_def split: suggest.splits)
  have "widgets_ok ?w" by (rule ok_run) (rule ok_init)
  then have "widget_ok (Built s)" using s(1) by (rule widgets_okD)
  with s show ?thesis by (auto simp: widget_ok_def)
qed

section \<open>The staleness guard\<close>

text \<open>
  C1, as the spec states it, fails in its last sentence: the guard compares values, so it
  cannot tell two dispatches of the same query apart. On \<open>demo_same_query\<close> search A was
  dispatched for \<open>ab\<close> before search B for \<open>ab\<close>; B's result, one item, is rendered and the
  field still holds B's query; A is the one search in flight. A's resolution replaces the
  rendered list.
\<close>

theorem stale_guard_same_query_counterexample:
  "pending demo_same_query = [(0, ''ab'')]
   \<and> field_value 0 demo_same_query = ''ab''
   \<and> map suggestItem (list_children 0 demo_same_query) = [Some ''abc'']
   \<and> map suggestItem (list_children 0 (settle 0 (Resolved [''abx'']) demo_same_query))
       = [Some ''abx'']"
  by code_simp

text \<open>
  C1, amended: when a search in flight resolves with a list and the value of the field
  differs from the query captured at dispatch, nothing changes but that the search is no
  longer in flight: nothing is rendered, and no timer and no other search in flight is
  touched. When the value equals the captured query, the list is rendered, one entry per
  item in order, the list is open if there is an item, and the searching indicator is
  hidden. In particular the later resolution of an earlier dispatch A does not alter the
  list rendered for a dispatch B whenever the field's value then differs from A's query, as
  it does while the field holds B's query and the two queries differ.
\<close>

theorem settle_resolved_guard:
  assumes "k < length (pending w)" and "pending w ! k = (this, query)"
    and "insts w this = Built s"
  shows "(input_value w (inputEl s) \<noteq> query
            \<longrightarrow> settle k (Resolved list) w
                  = w\<lparr>pending := take k (pending w) @ drop (Suc k) (pending w)\<rparr>)
       \<and> (input_value w (inputEl s) = query
            \<longrightarrow> list_children this (settle k (Resolved list) w)
                    = map (newItemEl (settings s) query) list
                \<and> list_shown this (settle k (Resolved list) w) = (list \<noteq> [])
                \<and> \<not> searching this (settle k (Resolved list) w)
                \<and> pending (settle k (Resolved list) w)
                    = take k (pending w) @ drop (Suc k) (pending w))"
  using assms
  by (simp add: settle_def refresh_resume_def updateList_def put_def show_b_def hide_b_def
      spinner_hide_def list_children_def list_shown_def searching_def Let_def)

theorem settle_resolved_guard_witness:
  "settle 0 (Resolved [''abx'']) demo_stale = demo_stale\<lparr>pending := [(0, ''abc'')]\<rparr>
   \<and> map suggestItem (list_children 0 (settle 1 (Resolved [''abcd'', ''abce'']) demo_stale))
       = [Some ''abcd'', Some ''abce'']
   \<and> list_shown 0 (settle 1 (Resolved [''abcd'', ''abce'']) demo_stale)
   \<and> \<not> searching 0 (settle 1 (Resolved [''abcd'', ''abce'']) demo_stale)
   \<and> pending (settle 1 (Resolved [''abcd'', ''abce'']) demo_stale) = [(0, ''ab'')]"
proof -
  let ?s = "the_built (insts demo_stale 0)"
  have b: "insts demo_stale 0 = Built ?s" using demo_stale_built by simp
  have p: "pending demo_stale = [(0, ''ab''), (0, ''abc'')]" by code_simp
  have v: "input_value demo_stale (inputEl ?s) = ''abc''" by code_simp
  have r: "map suggestItem (map (newItemEl (settings ?s) ''abc'') [''abcd'', ''abce''])
             = [Some ''abcd'', Some ''abce'']"
    by (simp add: newItemEl_def)
  have "settle 0 (Resolved [''abx'']) demo_stale = demo_stale\<lparr>pending := [(0, ''abc'')]\<rparr>"
    using settle_resolved_guard [of 0 demo_stale 0 "''ab''" ?s "[''abx'']"] b p v by simp
  moreover have "list_children 0 (settle 1 (Resolved [''abcd'', ''abce'']) demo_stale)
                   = map (newItemEl (settings ?s) ''abc'') [''abcd'', ''abce'']
                 \<and> list_shown 0 (settle 1 (Resolved [''abcd'', ''abce'']) demo_stale)
                 \<and> \<not> searching 0 (settle 1 (Resolved [''abcd'', ''abce'']) demo_stale)
                 \<and> pending (settle 1 (Resolved [''abcd'', ''abce'']) demo_stale) = [(0, ''ab'')]"
    using settle_resolved_guard [of 1 demo_stale 0 "''abc''" ?s "[''abcd'', ''abce'']"] b p v
    by simp
  ultimately show ?thesis using r by simp
qed

section \<open>Destruction and the debounce timer\<close>

lemma destroy_keeps_timers:
  "destroy this w = Inr w' \<Longrightarrow> timers w' = timers w"
  by (auto simp: destroy_def put_def Let_def split: suggest.splits if_splits)

text \<open>
  C2: \<open>destroy\<close> does not cancel the debounce timer. On \<open>demo_bound\<close> the user types \<open>ab\<close>,
  which arms timer 1, due at 250 ms. The object is destroyed at once: the registry is empty
  and the document listener removed, as the claim says, but the timer is still armed. When
  the interval has passed, \<open>refresh\<close> runs on the destroyed object and dispatches a search
  for \<open>ab\<close>.
\<close>

theorem destroy_leaves_timer_armed:
  "timers (run [Input 0 ''ab''] demo_bound) = [(1, 250, 0)]
   \<and> timers (run [Input 0 ''ab'', Destroy 0] demo_bound) = [(1, 250, 0)]
   \<and> initializedEls (run [Input 0 ''ab'', Destroy 0] demo_bound) = []
   \<and> documentListener (run [Input 0 ''ab'', Destroy 0] demo_bound) = False
   \<and> calls (run [Input 0 ''ab'', Destroy 0] demo_bound) = []
   \<and> calls (run [Input 0 ''ab'', Destroy 0, Elapse 250] demo_bound) = [SearchFn 0 ''ab'']
   \<and> pending (run [Input 0 ''ab'', Destroy 0, Elapse 250] demo_bound) = [(0, ''ab'')]"
  by code_simp

section \<open>Queries that are empty or below the minimum length\<close>

text \<open>
  C3, as the spec states it, fails: a refresh with a non-empty query below \<open>minLength\<close>
  returns at once and the list stays as it was. On \<open>demo_short\<close> the field holds \<open>a\<close>, the
  minimum length is 2, and after \<open>refresh\<close> the three items are still rendered and the list
  is still open.
\<close>

theorem refresh_below_minLength_counterexample:
  "field_value 0 demo_short = ''a''
   \<and> \<not> isl (refresh 0 demo_short)
   \<and> map suggestItem (list_children 0 (projr (refresh 0 demo_short)))
       = [Some ''abc'', Some ''abd'', Some ''abe'']
   \<and> list_shown 0 (projr (refresh 0 demo_short))"
  by code_simp

text \<open>
  C3, amended: a refresh with a non-empty query below \<open>minLength\<close> changes nothing at all, so
  \<open>searchFn\<close> is not invoked and the list is left as it is; a refresh with an empty query
  invokes \<open>clearFn\<close> and nothing else, hides the list, empties it, resets the field and hides
  the searching indicator, and no search is dispatched.
\<close>

theorem refresh_short_or_empty:
  assumes "insts w this = Built s"
  shows "(input_value w (inputEl s) \<noteq> []
            \<and> int (length (input_value w (inputEl s))) < minLength (settings s)
          \<longrightarrow> refresh this w = Inr w)
       \<and> (input_value w (inputEl s) = []
          \<longrightarrow> (\<exists>w'. refresh this w = Inr w' \<and> calls w' = calls w @ [ClearFn this]
                 \<and> pending w' = pending w \<and> list_children this w' = []
                 \<and> \<not> list_shown this w' \<and> field_value this w' = []
                 \<and> \<not> searching this w'))"
  using assms
  by (simp add: refresh_def clear_def put_def hide_b_def spinner_hide_def list_children_def
      list_shown_def field_value_def searching_def)

theorem refresh_short_or_empty_witness:
  "refresh 0 demo_short = Inr demo_short
   \<and> (\<exists>w'. refresh 0 demo_empty = Inr w' \<and> calls w' = calls demo_empty @ [ClearFn 0]
        \<and> pending w' = pending demo_empty \<and> list_children 0 w' = []
        \<and> \<not> list_shown 0 w' \<and> field_value 0 w' = [] \<and> \<not> searching 0 w')"
proof -
  have s: "insts demo_short 0 = Built (the_built (insts demo_short 0))"
    using demo_short_built by simp
  have e: "insts demo_empty 0 = Built (the_built (insts demo_empty 0))"
    using demo_empty_built by simp
  have sv: "input_value demo_short (inputEl (the_built (insts demo_short 0))) \<noteq> []
            \<and> int (length (input_value demo_short (inputEl (the_built (insts demo_short 0)))))
                < minLength (settings (the_built (insts demo_short 0)))"
    by code_simp
  have ev: "input_value demo_empty (inputEl (the_built (insts demo_empty 0))) = []"
    by code_simp
  show ?thesis
    using refresh_short_or_empty [OF s] refresh_short_or_empty [OF e] sv ev by blast
qed
section \<open>Debounce coalescing\<close>

text \<open>
  C4, as the spec states it, fails: a burst of keystrokes ends in one refresh, which is not
  always a search dispatch. On \<open>demo_bound\<close> (minimum length 2) the user types \<open>a\<close> and
  deletes it 100 ms later: after the debounce interval \<open>clearFn\<close> has been called and no
  search has been dispatched. Typing \<open>abc\<close> and cutting it down to \<open>a\<close> dispatches nothing
  either.
\<close>

theorem debounce_no_dispatch_counterexample:
  "calls (run (Input 0 ''a'' # keystrokes 0 [(100, [])] @ [Elapse 250]) demo_bound) = [ClearFn 0]
   \<and> pending (run (Input 0 ''a'' # keystrokes 0 [(100, [])] @ [Elapse 250]) demo_bound) = []
   \<and> calls (run (Input 0 ''abc'' # keystrokes 0 [(100, ''a'')] @ [Elapse 250]) demo_bound) = []
   \<and> pending (run (Input 0 ''abc'' # keystrokes 0 [(100, ''a'')] @ [Elapse 250]) demo_bound) = []"
  by code_simp

text \<open>
  C4, amended. The scheduler: on an object whose \<open>#timeoutId\<close> names an armed timer,
  \<open>#debounceRefresh\<close> removes that timer and arms a new one, due \<open>debounce\<close> milliseconds
  from now, and records it in \<open>#timeoutId\<close>. Coalescing: let no timer be armed, let a
  keystroke leave the value \<open>v\<close> in the field and let further keystrokes \<open>ks\<close> follow, each
  less than \<open>debounce\<close> milliseconds after the one before it; once at least \<open>debounce\<close>
  milliseconds (and at least one) have passed after the last keystroke, exactly one
  refresh has run, on the value \<open>x\<close> left by the last keystroke: the log of calls has grown
  by the one call \<open>searchFn(x)\<close> and that search is in flight if \<open>x\<close> is not empty and not
  shorter than \<open>minLength\<close>; by the one call \<open>clearFn()\<close> if \<open>x\<close> is empty; by nothing if \<open>x\<close>
  is not empty and shorter than \<open>minLength\<close>. No timer is left armed.
\<close>

theorem debounce_coalesces:
  assumes "insts w this = Built s" and "timers w = []" and "0 < nextTimer w"
    and "list_all (\<lambda>k. fst k < debounce (settings s)) ks"
    and "debounce (settings s) \<le> d" and "0 < d"
    and "insts u this = Built su" and "timeoutId su = Some t" and "t \<noteq> 0"
  shows "(\<exists>u'. debounceRefresh this u = Inr u'
            \<and> timers u' = filter (\<lambda>x. fst x \<noteq> t) (timers u)
                            @ [(nextTimer u, now u + debounce (settings su), this)]
            \<and> insts u' this = Built (su\<lparr>timeoutId := Some (nextTimer u)\<rparr>))
       \<and> calls (run (Input this v # keystrokes this ks @ [Elapse d]) w)
           = calls w @ (if last (v # map snd ks) = [] then [ClearFn this]
                        else if int (length (last (v # map snd ks))) < minLength (settings s)
                        then []
                        else [SearchFn this (last (v # map snd ks))])
       \<and> pending (run (Input this v # keystrokes this ks @ [Elapse d]) w)
           = pending w @ (if last (v # map snd ks) \<noteq> []
                             \<and> minLength (settings s) \<le> int (length (last (v # map snd ks)))
                          then [(this, last (v # map snd ks))] else [])
       \<and> timers (run (Input this v # keystrokes this ks @ [Elapse d]) w) = []"
proof -
  let ?w1 = "step (Input this v) w"
  let ?s1 = "s\<lparr>timeoutId := Some (nextTimer w)\<rparr>"
  let ?W = "run (keystrokes this ks) ?w1"
  note w1 = first_keystroke [OF assms(1-3), of v]
  have "\<exists>t'. t' \<noteq> 0
           \<and> insts ?W this = Built (?s1\<lparr>timeoutId := Some t'\<rparr>)
           \<and> timers ?W = [(t', now ?W + debounce (settings ?s1), this)]
           \<and> calls ?W = calls ?w1
           \<and> pending ?W = pending ?w1
           \<and> input_value ?W (inputEl ?s1) = last (input_value ?w1 (inputEl ?s1) # map snd ks)"
  proof (rule armed_keystrokes)
    show "insts ?w1 this = Built ?s1" unfolding w1 by simp
    show "timeoutId ?s1 = Some (nextTimer w)" by simp
    show "nextTimer w \<noteq> 0" using assms(3) by simp
    show "timers ?w1 = [(nextTimer w, now ?w1 + debounce (settings ?s1), this)]"
      unfolding w1 by simp
    show "0 < nextTimer ?w1" unfolding w1 by simp
    show "list_all (\<lambda>k. fst k < debounce (settings ?s1)) ks" using assms(4) by simp
  qed
  then obtain t' where W:
    "insts ?W this = Built (s\<lparr>timeoutId := Some t'\<rparr>)"
    "timers ?W = [(t', now ?W + debounce (settings s), this)]"
    "calls ?W = calls ?w1" "pending ?W = pending ?w1"
    "input_value ?W (inputEl s) = last (input_value ?w1 (inputEl s) # map snd ks)"
    by auto
  have v1: "input_value ?w1 (inputEl s) = v" "calls ?w1 = calls w" "pending ?w1 = pending w"
    unfolding w1 by simp_all
  define V where "V = ?W\<lparr>timers := []\<rparr>"
  define x where "x = last (v # map snd ks)"
  have final: "run (Input this v # keystrokes this ks @ [Elapse d]) w = elapse d ?W"
    by (simp add: run_def)
  have fired: "elapse d ?W = (timerCallback this V)\<lparr>now := now ?W + d\<rparr>"
    unfolding V_def by (rule elapse_fire [OF W(2)]) (use assms(5,6) in simp_all)
  have b: "insts V this = Built (s\<lparr>timeoutId := Some t'\<rparr>)"
    using W(1) by (simp add: V_def)
  have V: "input_value V (inputEl s) = x" "calls V = calls w" "pending V = pending w"
    "timers V = []"
    using W(3-5) v1 by (simp_all add: V_def x_def del: step.simps)
  have sched: "\<exists>u'. debounceRefresh this u = Inr u'
            \<and> timers u' = filter (\<lambda>x. fst x \<noteq> t) (timers u)
                            @ [(nextTimer u, now u + debounce (settings su), this)]
            \<and> insts u' this = Built (su\<lparr>timeoutId := Some (nextTimer u)\<rparr>)"
    using assms(7-9)
    by (simp add: debounceRefresh_def clearTimeout_def setTimeout_def put_def Let_def)
  have "calls (timerCallback this V)
          = calls w @ (if x = [] then [ClearFn this]
                       else if int (length x) < minLength (settings s) then []
                       else [SearchFn this x])"
    and "pending (timerCallback this V)
          = pending w @ (if x \<noteq> [] \<and> minLength (settings s) \<le> int (length x)
                         then [(this, x)] else [])"
    and "timers (timerCallback this V) = []"
    using timerCallback_effect [OF b] V by (simp_all add: timerCallback_timers)
  then show ?thesis
    unfolding final fired x_def [symmetric] using sched by simp
qed

theorem debounce_coalesces_witness:
  "(\<exists>u'. debounceRefresh 0 demo_typing = Inr u' \<and> timers u' = [(2, 350, 0)])
   \<and> timers demo_typing = [(1, 250, 0)]
   \<and> calls (run (Input 0 ''a'' # keystrokes 0 [(100, ''abc''), (249, ''ab'')] @ [Elapse 250])
              demo_bound)
       = [SearchFn 0 ''ab'']
   \<and> pending (run (Input 0 ''a'' # keystrokes 0 [(100, ''abc''), (249, ''ab'')] @ [Elapse 250])
                demo_bound)
       = [(0, ''ab'')]
   \<and> timers (run (Input 0 ''a'' # keystrokes 0 [(100, ''abc''), (249, ''ab'')] @ [Elapse 250])
               demo_bound)
       = []"
proof -
  let ?s = "the_built (insts demo_bound 0)"
  let ?u = "the_built (insts demo_typing 0)"
  have b: "insts demo_bound 0 = Built ?s" using demo_bound_built by simp
  have u: "insts demo_typing 0 = Built ?u" using demo_typing_built by simp
  have h: "timers demo_bound = []" "0 < nextTimer demo_bound"
    "list_all (\<lambda>k. fst k < debounce (settings ?s)) [(100, ''abc''), (249, ''ab'')]"
    "debounce (settings ?s) \<le> 250" "(0::nat) < 250"
    "timeoutId ?u = Some 1" "(1::nat) \<noteq> 0"
    by code_simp+
  have f: "calls demo_bound = []" "pending demo_bound = []" "minLength (settings ?s) = 2"
    "timers demo_typing = [(1, 250, 0)]" "nextTimer demo_typing = 2" "now demo_typing = 100"
    "debounce (settings ?u) = 250"
    by code_simp+
  show ?thesis
    using debounce_coalesces [OF b h(1-5) u h(6,7), of "''a''"] f by simp blast
qed

section \<open>Committing an entry\<close>

text \<open>
  C5: committing the \<open>i\<close>-th entry of the list, an item element whose item is \<open>raw\<close>, sets the
  value of the field to \<open>labelFn raw\<close>; afterwards no entry is highlighted and exactly the
  \<open>i\<close>-th entry is active, the items are unchanged, the list is hidden, and the one call
  \<open>selectFn(raw, element i)\<close> has been appended to the log of calls. Committing \<open>null\<close> or
  the list container changes nothing.
\<close>

theorem select_commits_item:
  assumes "insts w this = Built s" and "i < length (children s)"
    and "suggestItem (children s ! i) = Some raw"
  shows "(\<exists>w'. select this (Some (Child i)) w = Inr w'
            \<and> field_value this w' = labelFn (settings s) (Some raw)
            \<and> map active (list_children this w') = map (\<lambda>j. j = i) [0..<length (children s)]
            \<and> map hover (list_children this w') = replicate (length (children s)) False
            \<and> map suggestItem (list_children this w') = map suggestItem (children s)
            \<and> \<not> list_shown this w'
            \<and> calls w' = calls w @ [SelectFn this (Some raw) i])
       \<and> select this None w = Inr w
       \<and> select this (Some ListEl) w = Inr w"
  using assms
  by (simp add: select_def put_def hide_b_def list_children_def list_shown_def field_value_def
      Let_def map_active_commit map_hover_commit map_item_commit)

theorem select_commits_item_witness:
  "(\<exists>w'. select 0 (Some (Child 1)) demo_open = Inr w'
      \<and> field_value 0 w' = ''abd''
      \<and> map active (list_children 0 w') = [False, True, False]
      \<and> map hover (list_children 0 w') = [False, False, False]
      \<and> map suggestItem (list_children 0 w') = [Some ''abc'', Some ''abd'', Some ''abe'']
      \<and> \<not> list_shown 0 w'
      \<and> calls w' = calls demo_open @ [SelectFn 0 (Some ''abd'') 1])
   \<and> select 0 None demo_open = Inr demo_open
   \<and> select 0 (Some ListEl) demo_open = Inr demo_open"
proof -
  let ?s = "the_built (insts demo_open 0)"
  have b: "insts demo_open 0 = Built ?s" using demo_open_built by simp
  have i: "1 < length (children ?s)" by code_simp
  have r: "suggestItem (children ?s ! 1) = Some ''abd''" by code_simp
  have f: "labelFn (settings ?s) (Some ''abd'') = ''abd''"
    "length (children ?s) = 3"
    "map suggestItem (children ?s) = [Some ''abc'', Some ''abd'', Some ''abe'']"
    "map (\<lambda>j. j = (1::nat)) [0..<3] = [False, True, False]"
    "replicate 3 False = [False, False, False]"
    by code_simp+
  show ?thesis
    using select_commits_item [OF b i r] unfolding f by simp
qed

section \<open>Keyboard navigation\<close>

text \<open>
  C6, as the spec states it, fails: ArrowDown with no highlight does not always move the
  highlight to index 0. On \<open>demo_committed\<close> the list of three entries is open, nothing is
  highlighted and the second entry is the active one; ArrowDown highlights the third
  entry, the one after the active entry.
\<close>

theorem arrow_down_after_commit_counterexample:
  "list_shown 0 demo_committed
   \<and> length (list_children 0 demo_committed) = 3
   \<and> highlight 0 demo_committed = None
   \<and> committed 0 demo_committed = Some 1
   \<and> \<not> isl (handleKeyEvent 0 arrow_down demo_committed)
   \<and> highlight 0 (snd (projr (handleKeyEvent 0 arrow_down demo_committed))) = Some 2"
  by code_simp

text \<open>One press of an arrow key, and ArrowDown pressed repeatedly on a fresh list.\<close>

lemma arrow_key_step:
  assumes "insts w this = Built s" and "shown s" and "children s \<noteq> []"
    and "length (filter hover (children s)) \<le> 1"
    and "key e = ArrowDown \<or> key e = ArrowUp"
  shows "\<exists>w'. handleKeyEvent this e w
                 = Inr (e\<lparr>propagationStopped := True, defaultPrevented := True\<rparr>, w')
            \<and> map hover (list_children this w')
                = map (\<lambda>k. k = (if key e = ArrowDown
                                 then (case highlight this w of
                                         Some i \<Rightarrow> if Suc i < length (children s) then Suc i else 0
                                       | None \<Rightarrow>
                                           (case committed this w of
                                              Some j \<Rightarrow> if Suc j < length (children s) then Suc j else 0
                                            | None \<Rightarrow> 0))
                                 else (case highlight this w of
                                         Some i \<Rightarrow> if 0 < i then i - 1 else length (children s) - 1
                                       | None \<Rightarrow>
                                           (case committed this w of
                                              Some j \<Rightarrow> if 0 < j then j - 1 else length (children s) - 1
                                            | None \<Rightarrow> length (children s) - 1))))
                    [0..<length (children s)]
            \<and> map active (list_children this w') = map active (children s)
            \<and> map suggestItem (list_children this w') = map suggestItem (children s)
            \<and> list_shown this w'"
proof -
  let ?cs = "children s"
  let ?n = "length ?cs"
  define cs1 where
    "cs1 = (case currentEl ?cs of Some i \<Rightarrow> ?cs[i := (?cs ! i)\<lparr>hover := False\<rparr>] | None \<Rightarrow> ?cs)"
  define tgt where
    "tgt = (if key e = ArrowDown
            then (case currentEl ?cs of Some i \<Rightarrow> if Suc i < ?n then Suc i else 0 | None \<Rightarrow> 0)
            else (case currentEl ?cs of Some i \<Rightarrow> if 0 < i then i - 1 else ?n - 1 | None \<Rightarrow> ?n - 1))"
  have n: "0 < ?n" using assms(3) by simp
  have tgt_n: "tgt < ?n"
    using n by (auto simp: tgt_def dest: currentEl_bound split: option.splits)
  have run: "handleKeyEvent this e w
               = Inr (e\<lparr>propagationStopped := True, defaultPrevented := True\<rparr>,
                      put this (s\<lparr>children := cs1[tgt := (cs1 ! tgt)\<lparr>hover := True\<rparr>]\<rparr>) w)"
    using assms(1,2,5) n
    by (auto simp: handleKeyEvent_def moveHover_def Let_def cs1_def tgt_def split: option.splits)
  have tgt_eq: "tgt = (if key e = ArrowDown
                 then (case highlight this w of
                         Some i \<Rightarrow> if Suc i < ?n then Suc i else 0
                       | None \<Rightarrow>
                           (case committed this w of
                              Some j \<Rightarrow> if Suc j < ?n then Suc j else 0
                            | None \<Rightarrow> 0))
                 else (case highlight this w of
                         Some i \<Rightarrow> if 0 < i then i - 1 else ?n - 1
                       | None \<Rightarrow>
                           (case committed this w of
                              Some j \<Rightarrow> if 0 < j then j - 1 else ?n - 1
                            | None \<Rightarrow> ?n - 1)))"
    using assms(1)
    by (simp add: tgt_def currentEl_def highlight_def committed_def list_children_def
        split: option.splits)
  note m = moved_children [OF assms(4) tgt_n cs1_def]
  have "map hover (list_children this (put this (s\<lparr>children := cs1[tgt := (cs1 ! tgt)\<lparr>hover := True\<rparr>]\<rparr>) w))
          = map (\<lambda>k. k = tgt) [0..<?n]"
       "map active (list_children this (put this (s\<lparr>children := cs1[tgt := (cs1 ! tgt)\<lparr>hover := True\<rparr>]\<rparr>) w))
          = map active ?cs"
       "map suggestItem (list_children this (put this (s\<lparr>children := cs1[tgt := (cs1 ! tgt)\<lparr>hover := True\<rparr>]\<rparr>) w))
          = map suggestItem ?cs"
       "list_shown this (put this (s\<lparr>children := cs1[tgt := (cs1 ! tgt)\<lparr>hover := True\<rparr>]\<rparr>) w)"
    using m assms(2) by (simp_all add: list_children_def list_shown_def put_def)
  with run show ?thesis unfolding tgt_eq [symmetric] by blast
qed

lemma arrow_down_repeated:
  assumes "insts w this = Built s" and "shown s" and "children s \<noteq> []"
    and "first_index hover (children s) = None" and "first_index active (children s) = None"
  shows "map hover (list_children this (run (replicate (Suc k) (KeyDown this ArrowDown)) w))
           = map (\<lambda>j. j = k mod length (children s)) [0..<length (children s)]"
proof -
  let ?n = "length (children s)"
  let ?ev = "KeyDown this ArrowDown"
  let ?e = "\<lparr>key = ArrowDown, defaultPrevented = False, propagationStopped = False\<rparr>"
  have n: "0 < ?n" using assms(3) by simp
  have "\<exists>s'. insts (run (replicate (Suc k) ?ev) w) this = Built s' \<and> shown s'
            \<and> length (children s') = ?n
            \<and> map hover (children s') = map (\<lambda>j. j = k mod ?n) [0..<?n]
            \<and> map active (children s') = replicate ?n False"
  proof (induction k)
    case 0
    have one: "length (filter hover (children s)) \<le> 1"
      using assms(4) by (simp add: first_index_None filter_False)
    from arrow_key_step [OF assms(1-3) one, of ?e] obtain w' where w':
      "handleKeyEvent this ?e w = Inr (?e\<lparr>propagationStopped := True, defaultPrevented := True\<rparr>, w')"
      "map hover (list_children this w') = map (\<lambda>k. k = 0) [0..<?n]"
      "map active (list_children this w') = map active (children s)"
      "list_shown this w'"
      using assms(1,4,5) by (auto simp: highlight_def committed_def list_children_def)
    from w'(4) obtain s' where s': "insts w' this = Built s'" "shown s'"
      by (auto simp: list_shown_def split: suggest.splits)
    have len: "length (children s') = ?n"
      using w'(2) s'(1) by (auto simp: list_children_def dest: map_eq_imp_length_eq)
    have "run (replicate (Suc 0) ?ev) w = w'" using w'(1) by (simp add: run_def)
    then show ?case
      using s' len w'(2,3) assms(5) by (auto simp: list_children_def no_mark)
  next
    case (Suc k)
    let ?wk = "run (replicate (Suc k) ?ev) w"
    from Suc obtain sk where sk: "insts ?wk this = Built sk" "shown sk"
      "length (children sk) = ?n" "map hover (children sk) = map (\<lambda>j. j = k mod ?n) [0..<?n]"
      "map active (children sk) = replicate ?n False"
      by blast
    have kn: "k mod ?n < length (children sk)" using n sk(3) by simp
    have hv: "map hover (children sk) = map (\<lambda>j. j = k mod ?n) [0..<length (children sk)]"
      using sk(3,4) by simp
    note h = only_hover_at [OF hv kn]
    have ne: "children sk \<noteq> []" using n sk(3) by auto
    from arrow_key_step [OF sk(1,2) ne h(2), of ?e] obtain w' where w':
      "handleKeyEvent this ?e ?wk = Inr (?e\<lparr>propagationStopped := True, defaultPrevented := True\<rparr>, w')"
      "map hover (list_children this w')
         = map (\<lambda>j. j = (if Suc (k mod ?n) < ?n then Suc (k mod ?n) else 0)) [0..<?n]"
      "map active (list_children this w') = map active (children sk)"
      "list_shown this w'"
      using sk(1,3) h(1) by (auto simp: highlight_def list_children_def)
    from w'(4) obtain s' where s': "insts w' this = Built s'" "shown s'"
      by (auto simp: list_shown_def split: suggest.splits)
    have len: "length (children s') = ?n"
      using w'(2) s'(1) by (auto simp: list_children_def dest: map_eq_imp_length_eq)
    have m: "(if Suc (k mod ?n) < ?n then Suc (k mod ?n) else 0) = Suc k mod ?n"
      using mod_less_divisor [OF n, of k] by (auto simp: mod_Suc)
    have "run (replicate (Suc (Suc k)) ?ev) w = step ?ev ?wk" by (rule run_replicate_Suc)
    also have "\<dots> = w'" using w'(1) by simp
    finally show ?case
      using s' len w'(2,3) sk(5) m by (auto simp: list_children_def)
  qed
  then show ?thesis by (auto simp: list_children_def)
qed

text \<open>
  C6, amended: in every world that a page reaches, on the open list of an object, with its
  \<open>n\<close> entries (at least one, and at most one of them highlighted, by
  \<open>reachable_open_list\<close>), ArrowDown moves the highlight from index \<open>i\<close> to \<open>i + 1\<close>, and to 0
  past the end; with no highlight it starts from the active entry in the same way, and
  highlights index 0 when no entry is active either. ArrowUp is symmetric and wraps to
  \<open>n - 1\<close>. Exactly the target entry is highlighted afterwards; the active mark, the items
  and the open list are unchanged, and the default effect of the key is suppressed. So on a
  list with no highlight and no active entry, as it is when freshly rendered, the \<open>k\<close>-th
  press of ArrowDown in a row highlights the entry at index \<open>(k - 1) mod n\<close>: with three
  items the first, second, third and again the first.
\<close>

theorem arrow_keys_move_highlight:
  assumes "w = run evs (init_world str qs vals)"
    and "insts w this = Built s" and "shown s"
    and "key e = ArrowDown \<or> key e = ArrowUp"
  shows "(\<exists>w'. handleKeyEvent this e w
                 = Inr (e\<lparr>propagationStopped := True, defaultPrevented := True\<rparr>, w')
            \<and> map hover (list_children this w')
                = map (\<lambda>k. k = (if key e = ArrowDown
                                 then (case highlight this w of
                                         Some i \<Rightarrow> if Suc i < length (children s) then Suc i else 0
                                       | None \<Rightarrow>
                                           (case committed this w of
                                              Some j \<Rightarrow> if Suc j < length (children s) then Suc j else 0
                                            | None \<Rightarrow> 0))
                                 else (case highlight this w of
                                         Some i \<Rightarrow> if 0 < i then i - 1 else length (children s) - 1
                                       | None \<Rightarrow>
                                           (case committed this w of
                                              Some j \<Rightarrow> if 0 < j then j - 1 else length (children s) - 1
                                            | None \<Rightarrow> length (children s) - 1))))
                    [0..<length (children s)]
            \<and> map active (list_children this w') = map active (children s)
            \<and> map suggestItem (list_children this w') = map suggestItem (children s)
            \<and> list_shown this w')
       \<and> (highlight this w = None \<and> committed this w = None
            \<longrightarrow> map hover (list_children this
                   (run (replicate (Suc k) (KeyDown this ArrowDown)) w))
                = map (\<lambda>j. j = k mod length (children s)) [0..<length (children s)])"
proof -
  from assms(1-3) have "list_shown this (run evs (init_world str qs vals))"
    by (simp add: list_shown_def)
  from reachable_open_list [OF this] assms(1,2)
  have ne: "children s \<noteq> []" and one: "length (filter hover (children s)) \<le> 1"
    by auto
  have "highlight this w = None \<and> committed this w = None
          \<longrightarrow> map hover (list_children this (run (replicate (Suc k) (KeyDown this ArrowDown)) w))
              = map (\<lambda>j. j = k mod length (children s)) [0..<length (children s)]"
    using assms(2) arrow_down_repeated [OF assms(2,3) ne, of k]
    by (simp add: highlight_def committed_def list_children_def)
  with arrow_key_step [OF assms(2,3) ne one assms(4)] show ?thesis by blast
qed

theorem arrow_keys_move_highlight_witness:
  "map hover (list_children 0 (run [KeyDown 0 ArrowDown] demo_open)) = [True, False, False]
   \<and> map hover (list_children 0 (run [KeyDown 0 ArrowDown, KeyDown 0 ArrowDown] demo_open))
       = [False, True, False]
   \<and> map hover (list_children 0
         (run [KeyDown 0 ArrowDown, KeyDown 0 ArrowDown, KeyDown 0 ArrowDown] demo_open))
       = [False, False, True]
   \<and> map hover (list_children 0
         (run [KeyDown 0 ArrowDown, KeyDown 0 ArrowDown, KeyDown 0 ArrowDown, KeyDown 0 ArrowDown]
            demo_open))
       = [True, False, False]
   \<and> map hover (list_children 0 (run [KeyDown 0 ArrowUp] demo_open)) = [False, False, True]
   \<and> map hover (list_children 0 (run (replicate 5 (KeyDown 0 ArrowDown)) demo_open))
       = [False, True, False]"
proof -
  let ?init = "init_world item_string (\<lambda>sel. if sel = ''#q'' then Some 0 else None) (\<lambda>_. [])"
  let ?d = "KeyDown 0 ArrowDown"
  have press: "map hover (list_children 0 (step (KeyDown 0 k) (run evs demo_open)))
                 = map (\<lambda>j. j = t) [0..<n]"
    if "is_Built (insts (run evs demo_open) 0)"
      and "n = length (children (the_built (insts (run evs demo_open) 0)))"
      and "shown (the_built (insts (run evs demo_open) 0))"
      and "k = ArrowDown \<or> k = ArrowUp"
      and "t = (if k = ArrowDown
                then (case highlight 0 (run evs demo_open) of
                        Some i \<Rightarrow> if Suc i < n then Suc i else 0
                      | None \<Rightarrow>
                          (case committed 0 (run evs demo_open) of
                             Some j \<Rightarrow> if Suc j < n then Suc j else 0
                           | None \<Rightarrow> 0))
                else (case highlight 0 (run evs demo_open) of
                        Some i \<Rightarrow> if 0 < i then i - 1 else n - 1
                      | None \<Rightarrow>
                          (case committed 0 (run evs demo_open) of
                             Some j \<Rightarrow> if 0 < j then j - 1 else n - 1
                           | None \<Rightarrow> n - 1)))"
    for k t n evs
  proof -
    let ?w = "run evs demo_open"
    have r: "?w = run ([New (Selector ''#q'') demo_options]
                        @ [Input 0 ''ab'', Elapse 250,
                           Settle 0 (Resolved [''abc'', ''abd'', ''abe''])] @ evs) ?init"
      by (simp only: demo_open_def demo_bound_def demo_page_def run_append)
    have b: "insts ?w 0 = Built (the_built (insts ?w 0))" using that(1) by simp
    show ?thesis
      using arrow_keys_move_highlight
        [OF r b that(3),
          of "\<lparr>key = k, defaultPrevented = False, propagationStopped = False\<rparr>",
          THEN conjunct1] that(2,4,5)
      by auto
  qed
  have fresh: "map hover (list_children 0 (run (replicate (Suc 4) ?d) demo_open))
                 = map (\<lambda>j. j = 4 mod 3) [0..<3]"
  proof -
    have r: "demo_open = run ([New (Selector ''#q'') demo_options]
                        @ [Input 0 ''ab'', Elapse 250,
                           Settle 0 (Resolved [''abc'', ''abd'', ''abe''])]) ?init"
      by (simp only: demo_open_def demo_bound_def demo_page_def run_append)
    have b: "insts demo_open 0 = Built (the_built (insts demo_open 0))"
      using demo_open_built by simp
    have f: "shown (the_built (insts demo_open 0))"
      "highlight 0 demo_open = None \<and> committed 0 demo_open = None"
      "length (children (the_built (insts demo_open 0))) = 3"
      by code_simp+
    show ?thesis
      using arrow_keys_move_highlight
        [OF r b f(1), of "\<lparr>key = ArrowDown, defaultPrevented = False, propagationStopped = False\<rparr>" 4,
          THEN conjunct2] f(2,3)
      by simp
  qed
  have m: "map (\<lambda>j. j = (0::nat)) [0..<3] = [True, False, False]"
    "map (\<lambda>j. j = (1::nat)) [0..<3] = [False, True, False]"
    "map (\<lambda>j. j = (2::nat)) [0..<3] = [False, False, True]"
    "map (\<lambda>j. j = (4::nat) mod 3) [0..<3] = [False, True, False]"
    "Suc 4 = 5"
    by code_simp+
  have 1: "map hover (list_children 0 (step ?d (run [] demo_open))) = map (\<lambda>j. j = 0) [0..<3]"
    by (rule press; code_simp)
  have 2: "map hover (list_children 0 (step ?d (run [?d] demo_open))) = map (\<lambda>j. j = 1) [0..<3]"
    by (rule press; code_simp)
  have 3: "map hover (list_children 0 (step ?d (run [?d, ?d] demo_open)))
             = map (\<lambda>j. j = 2) [0..<3]"
    by (rule press; code_simp)
  have 4: "map hover (list_children 0 (step ?d (run [?d, ?d, ?d] demo_open)))
             = map (\<lambda>j. j = 0) [0..<3]"
    by (rule press; code_simp)
  have 5: "map hover (list_children 0 (step (KeyDown 0 ArrowUp) (run [] demo_open)))
             = map (\<lambda>j. j = 2) [0..<3]"
    by (rule press; code_simp)
  show ?thesis
    using 1 2 3 4 5 fresh unfolding m step_run by (simp add: run_def)
qed

section \<open>Enter and Tab\<close>








section \<open>Failure of the search function\<close>

text \<open>
  A rejection that carries a message, whatever the value of the field is by then: the
  searching indicator is hidden, the list is open and holds the error element with the
  message as its text and nothing else, the message is written to the console, and the value
  of the field is as before.
\<close>

lemma settle_rejected_message:
  assumes "k < length (pending w)" and "pending w ! k = (this, query)"
    and "insts w this = Built s"
  shows "\<not> searching this (settle k (Rejected (Message m)) w)"
    and "list_children this (settle k (Rejected (Message m)) w)
         = [errorEl\<lparr>content := TextNode m\<rparr>]"
    and "list_shown this (settle k (Rejected (Message m)) w)"
    and "field_value this (settle k (Rejected (Message m)) w) = field_value this w"
    and "console (settle k (Rejected (Message m)) w) = console w @ [m]"
  using assms
  by (simp_all add: settle_def refresh_resume_def showError_def put_def show_b_def hide_b_def
      spinner_hide_def list_children_def list_shown_def searching_def field_value_def Let_def)

text \<open>
  A rejection with \<open>undefined\<close> or \<open>null\<close>: the searching indicator is as it was, the list is
  hidden and holds the empty error element, nothing is written to the console.
\<close>

lemma settle_rejected_nullish:
  assumes "k < length (pending w)" and "pending w ! k = (this, query)"
    and "insts w this = Built s"
  shows "searching this (settle k (Rejected Nullish) w) = searching this w"
    and "list_children this (settle k (Rejected Nullish) w) = [errorEl]"
    and "\<not> list_shown this (settle k (Rejected Nullish) w)"
    and "field_value this (settle k (Rejected Nullish) w) = field_value this w"
    and "console (settle k (Rejected Nullish) w) = console w"
  using assms
  by (simp_all add: settle_def refresh_resume_def showError_def put_def hide_b_def
      list_children_def list_shown_def searching_def field_value_def Let_def)

lemma ajax_login_redirect:
  "redirected r \<Longrightarrow> suffix login (url r)
   \<Longrightarrow> ajax login r = Rejected (Message ''You have been logged out.'')"
  by (simp add: ajax_def)

text \<open>
  C8: the \<open>catch\<close> block of \<open>refresh\<close> does not clear the searching indicator on every
  failure. On \<open>demo_bound\<close> the user types \<open>ab\<close> and the search is dispatched, which turns
  the indicator on. The search function rejects with \<open>undefined\<close>: \<open>showError\<close> hides and
  empties the list, inserts the error element and throws on reading the message, so that
  the indicator stays on, the list stays hidden around an empty error element and nothing
  is written to the console. A rejection that carries a message does what the claim says:
  that of \<open>search.ajax\<close> for a response redirected to the login page turns the indicator
  off, opens the list on the text \<open>You have been logged out.\<close> and leaves the value of the
  field as it is.
\<close>

theorem nullish_rejection_keeps_searching:
  "pending (run [Input 0 ''ab'', Elapse 250] demo_bound) = [(0, ''ab'')]
   \<and> searching 0 (run [Input 0 ''ab'', Elapse 250] demo_bound)
   \<and> searching 0 (run [Input 0 ''ab'', Elapse 250, Settle 0 (Rejected Nullish)] demo_bound)
   \<and> \<not> list_shown 0 (run [Input 0 ''ab'', Elapse 250, Settle 0 (Rejected Nullish)] demo_bound)
   \<and> map content
        (list_children 0 (run [Input 0 ''ab'', Elapse 250, Settle 0 (Rejected Nullish)] demo_bound))
       = [Empty]
   \<and> console (run [Input 0 ''ab'', Elapse 250, Settle 0 (Rejected Nullish)] demo_bound) = []
   \<and> ajax ''/login'' login_redirect = Rejected (Message ''You have been logged out.'')
   \<and> \<not> searching 0
         (run [Input 0 ''ab'', Elapse 250, Settle 0 (ajax ''/login'' login_redirect)] demo_bound)
   \<and> list_shown 0
         (run [Input 0 ''ab'', Elapse 250, Settle 0 (ajax ''/login'' login_redirect)] demo_bound)
   \<and> map content
        (list_children 0
           (run [Input 0 ''ab'', Elapse 250, Settle 0 (ajax ''/login'' login_redirect)] demo_bound))
       = [TextNode ''You have been logged out.'']
   \<and> field_value 0
         (run [Input 0 ''ab'', Elapse 250, Settle 0 (ajax ''/login'' login_redirect)] demo_bound)
       = ''ab''"
  by code_simp

section \<open>The registry invariant\<close>



section \<open>Construction without an input element\<close>

text \<open>
  C10: a constructor call whose element argument is \<open>null\<close>, or a selector that matches no
  element, does not throw. It yields the fresh object, which has no input element, and a
  world that differs from the one before in the logged error only (and in the allocation of
  the object): no write to the document, the registry and the document listener as before,
  every other object, timer and search as before.
\<close>

theorem new_Suggest_null_input:
  assumes "el = Element None \<or> (el = Selector sel \<and> querySelector w sel = None)"
  shows "new_Suggest el options w
           = Inr (nextOid w,
                  w\<lparr>nextOid := Suc (nextOid w),
                    insts := (insts w)(nextOid w := NoInput),
                    console := console w @ [input_null_message]\<rparr>)"
  using assms by (auto simp: new_Suggest_def Let_def)

theorem new_Suggest_null_input_witness:
  "new_Suggest (Element None) demo_options demo_open
     = Inr (1, demo_open\<lparr>nextOid := 2, insts := (insts demo_open)(1 := NoInput),
                         console := console demo_open @ [input_null_message]\<rparr>)
   \<and> new_Suggest (Selector ''#missing'') demo_options demo_open
     = Inr (1, demo_open\<lparr>nextOid := 2, insts := (insts demo_open)(1 := NoInput),
                         console := console demo_open @ [input_null_message]\<rparr>)
   \<and> initializedEls demo_open = [(0, 0)] \<and> documentListener demo_open"
proof -
  have n: "nextOid demo_open = 1" by code_simp
  have q: "querySelector demo_open ''#missing'' = None" by code_simp
  have r: "initializedEls demo_open = [(0, 0)] \<and> documentListener demo_open" by code_simp
  show ?thesis
    using new_Suggest_null_input [of "Element None" "''#missing''" demo_open demo_options]
      new_Suggest_null_input [of "Selector ''#missing''" "''#missing''" demo_open demo_options]
      n q r
    by simp
qed


end
